theory Spec2Isabelle
  imports Main "HOL-Library.Word" "HOL-Library.Finite_Map"
begin

section \<open>Library code as parameters\<close>

text \<open>
  The crawler and the validator call Go's standard library: package \<^verbatim>\<open>net/url\<close>
  (\<^verbatim>\<open>url.Parse\<close>, the field \<^verbatim>\<open>Scheme\<close>, \<^verbatim>\<open>URL.Hostname\<close>,
  \<^verbatim>\<open>URL.ResolveReference\<close>, \<^verbatim>\<open>URL.String\<close>), \<^verbatim>\<open>strings.ToLower\<close>,
  \<^verbatim>\<open>net.LookupIP\<close> and the classification methods of \<^verbatim>\<open>net.IP\<close>. None of them is
  code of this repository, and the resolver depends on the state of the network: they are
  parameters of the model, collected in two records. The type \<open>'u\<close> stands for
  \<^verbatim>\<open>url.URL\<close>. A library error is its message.
\<close>

type_synonym IP = "8 word list"

record 'u urllib =
  url_Parse :: "string \<Rightarrow> string + 'u"
  url_Scheme :: "'u \<Rightarrow> string"
  url_Hostname :: "'u \<Rightarrow> string"
  url_ResolveReference :: "'u \<Rightarrow> 'u \<Rightarrow> 'u"
  url_String :: "'u \<Rightarrow> string"

record netlib =
  strings_ToLower :: "string \<Rightarrow> string"
  net_LookupIP :: "string \<Rightarrow> string + IP list"
  IsLoopback :: "IP \<Rightarrow> bool"
  IsPrivate :: "IP \<Rightarrow> bool"
  IsLinkLocalUnicast :: "IP \<Rightarrow> bool"
  IsMulticast :: "IP \<Rightarrow> bool"

section \<open>The Spider crawler (crawlers/spider.go)\<close>

text \<open>
  Go's \<^verbatim>\<open>int\<close> and \<^verbatim>\<open>time.Duration\<close> (an \<^verbatim>\<open>int64\<close> of nanoseconds) are
  64-bit machine integers; they are read as signed numbers with \<open>sint\<close>.
\<close>

type_synonym go_int = "64 word"
type_synonym duration = "64 word"

definition time_Second :: duration where
  "time_Second = 1000000000"

subsection \<open>Configuration and construction\<close>

record SpiderConfig =
  MaxDepth :: go_int
  Concurrency :: go_int
  UserAgent :: string
  Delay :: duration
  Timeout :: duration

text \<open>The \<^verbatim>\<open>http.Client\<close> built by the constructors: only its \<^verbatim>\<open>Timeout\<close> is set.\<close>

record Client =
  client_Timeout :: duration

text \<open>The document type of the HTML library: the parsed body.\<close>

datatype Document = Document string

text \<open>
  The \<^verbatim>\<open>Spider\<close> struct. The mutexes carry no data; the wait group and the semaphore
  are accounted for in the model of \<^verbatim>\<open>Run\<close>. A Go \<^verbatim>\<open>error\<close> returned by caller or
  library code is its message; \<^verbatim>\<open>nil\<close> is \<open>None\<close>.
\<close>

record Spider =
  httpClient :: Client
  maxDepth :: go_int
  concurrency :: go_int
  visited :: "(string, bool) fmap"
  queue :: "string list"
  userAgent :: string
  delay :: duration
  onDocument :: "(Document \<Rightarrow> string \<Rightarrow> string option) option"
  running :: bool

definition NewSpider :: "SpiderConfig \<Rightarrow> Spider" where
  "NewSpider config =
     (let config = (if MaxDepth config = 0 then config\<lparr>MaxDepth := 3\<rparr> else config);
          config = (if Concurrency config = 0 then config\<lparr>Concurrency := 5\<rparr> else config);
          config = (if UserAgent config = [] then
                      config\<lparr>UserAgent := ''Mozilla/5.0 (compatible; GolwarcBot/1.0)''\<rparr>
                    else config);
          config = (if Timeout config = 0 then config\<lparr>Timeout := 30 * time_Second\<rparr> else config)
      in \<lparr>httpClient = \<lparr>client_Timeout = Timeout config\<rparr>,
          maxDepth = MaxDepth config,
          concurrency = Concurrency config,
          visited = fmempty,
          queue = [],
          userAgent = UserAgent config,
          delay = Delay config,
          onDocument = None,
          running = False\<rparr>)"

subsection \<open>Queue, visited map and running flag\<close>

definition AddStartURL :: "string \<Rightarrow> Spider \<Rightarrow> Spider" where
  "AddStartURL url s = s\<lparr>queue := queue s @ [url]\<rparr>"



definition Stop :: "Spider \<Rightarrow> Spider" where
  "Stop s = s\<lparr>running := False\<rparr>"


definition ClearVisited :: "Spider \<Rightarrow> Spider" where
  "ClearVisited s = s\<lparr>visited := fmempty\<rparr>"

text \<open>\<^verbatim>\<open>len(s.visited)\<close>: the number of keys of the map.\<close>

definition GetVisitedCount :: "Spider \<Rightarrow> nat" where
  "GetVisitedCount s = fcard (fmdom (visited s))"

text \<open>\<^verbatim>\<open>s.visited[url]\<close>: reading a key the map does not hold gives \<^verbatim>\<open>false\<close>.\<close>

definition isVisited :: "Spider \<Rightarrow> string \<Rightarrow> bool" where
  "isVisited s url = (case fmlookup (visited s) url of Some b \<Rightarrow> b | None \<Rightarrow> False)"

subsection \<open>Fetching one URL\<close>

text \<open>
  The HTTP client and the HTML parser are library code that talks to the network; they are
  parameters of the model. \<open>http_NewRequest\<close> gives the error of
  \<^verbatim>\<open>http.NewRequest(method, url, nil)\<close>, if any; \<open>http_Do\<close> is one call of
  \<^verbatim>\<open>Client.Do\<close>; \<open>goquery_NewDocument\<close> parses a response body.
\<close>

record Request =
  req_Method :: string
  req_URL :: string
  req_UserAgent :: string

record Response =
  StatusCode :: go_int
  Body :: string

record web =
  http_NewRequest :: "string \<Rightarrow> string \<Rightarrow> string option"
  http_Do :: "Client \<Rightarrow> Request \<Rightarrow> string + Response"
  goquery_NewDocument :: "string \<Rightarrow> string + Document"

datatype crawl_error =
    AlreadyRunning
  | RequestError string
  | TransportError string
  | StatusError go_int
  | DocumentError string
  | HandlerError string

text \<open>
  What a run does to the outside world, in order: a goroutine started for a URL, a request
  handed to \<^verbatim>\<open>Client.Do\<close>, a call of the document handler, a line printed for a failed
  URL, a sleep.
\<close>

datatype event =
    Dispatch string
  | HttpDo Client Request
  | HandlerCall Document string
  | Printf string crawl_error
  | Sleep duration

definition http_StatusOK :: go_int where
  "http_StatusOK = 200"

definition crawlURL :: "web \<Rightarrow> Spider \<Rightarrow> string \<Rightarrow> crawl_error option \<times> event list" where
  "crawlURL W s urlStr =
     (case http_NewRequest W ''GET'' urlStr of
        Some err \<Rightarrow> (Some (RequestError err), [])
      | None \<Rightarrow>
          (let req = \<lparr>req_Method = ''GET'', req_URL = urlStr, req_UserAgent = userAgent s\<rparr>
           in case http_Do W (httpClient s) req of
                Inl err \<Rightarrow> (Some (TransportError err), [HttpDo (httpClient s) req])
              | Inr resp \<Rightarrow>
                  if StatusCode resp \<noteq> http_StatusOK
                  then (Some (StatusError (StatusCode resp)), [HttpDo (httpClient s) req])
                  else (case goquery_NewDocument W (Body resp) of
                          Inl err \<Rightarrow> (Some (DocumentError err), [HttpDo (httpClient s) req])
                        | Inr doc \<Rightarrow>
                            (case onDocument s of
                               None \<Rightarrow> (None, [HttpDo (httpClient s) req])
                             | Some handler \<Rightarrow>
                                 (case handler doc urlStr of
                                    Some err \<Rightarrow>
                                      (Some (HandlerError err),
                                       [HttpDo (httpClient s) req, HandlerCall doc urlStr])
                                  | None \<Rightarrow>
                                      (None,
                                       [HttpDo (httpClient s) req, HandlerCall doc urlStr]))))))"

text \<open>The goroutine \<^verbatim>\<open>Run\<close> starts for a URL: crawl, print the error, sleep.\<close>

definition worker :: "web \<Rightarrow> Spider \<Rightarrow> string \<Rightarrow> event list" where
  "worker W s url =
     (case crawlURL W s url of
        (err, evs) \<Rightarrow>
          evs @ (case err of Some e \<Rightarrow> [Printf url e] | None \<Rightarrow> [])
              @ (if 0 <s delay s then [Sleep (delay s)] else []))"

subsection \<open>The driving loop\<close>

text \<open>
  While \<^verbatim>\<open>Run\<close> is in progress, other goroutines (the document handlers, the caller) may
  call methods of the same spider. The schedule of a run lists these calls: its n-th entry
  holds the calls that take effect before the loop tests its condition for the n-th time.
\<close>

datatype ext_call = CallAddStartURL string | CallStop | CallClearVisited

fun apply_call :: "ext_call \<Rightarrow> Spider \<Rightarrow> Spider" where
  "apply_call (CallAddStartURL url) s = AddStartURL url s"
| "apply_call CallStop s = Stop s"
| "apply_call CallClearVisited s = ClearVisited s"

definition arrive :: "ext_call list \<Rightarrow> Spider \<Rightarrow> Spider" where
  "arrive calls s = fold apply_call calls s"

text \<open>
  One pass of \<^verbatim>\<open>for len(s.queue) > 0\<close> per call. The second test of the length, under
  the lock, repeats the first: only this loop takes URLs out of the queue.

  \<open>cap\<close> is the capacity of the semaphore channel made when \<^verbatim>\<open>Run\<close> started: with
  capacity 0 the channel is unbuffered, and the send \<^verbatim>\<open>sem <- struct{}{}\<close> waits for a
  receiver that only the goroutine started after it would provide, so the loop stays there
  for ever. With a positive capacity the send goes through as soon as a worker has released
  a slot; the workers end, since the library calls and the handler are total here.

  When the loop finds the queue empty it leaves, and \<^verbatim>\<open>Run\<close> waits for the workers in
  \<^verbatim>\<open>s.wg.Wait()\<close>: the calls in the rest of the schedule arrive during that wait, so a
  URL added then stays in the queue.

  The result is \<open>True\<close> when the loop has left, \<open>False\<close> when it is stuck at the send,
  with the state of the spider and the events so far. The events of the workers are listed
  in the order in which the loop started them; the workers run concurrently, so in time
  their events may interleave.
\<close>

function run_loop :: "web \<Rightarrow> go_int \<Rightarrow> ext_call list list \<Rightarrow> Spider \<Rightarrow> bool \<times> Spider \<times> event list" where
  "run_loop W cap sched s =
     (let s = arrive (case sched of [] \<Rightarrow> [] | calls # _ \<Rightarrow> calls) s;
          sched = (case sched of [] \<Rightarrow> [] | _ # rest \<Rightarrow> rest)
      in case queue s of
           [] \<Rightarrow> (True, arrive (concat sched) s, [])
         | currentURL # q \<Rightarrow>
             (let s = s\<lparr>queue := q\<rparr> in
              if isVisited s currentURL then run_loop W cap sched s
              else
                (let s = s\<lparr>visited := fmupd currentURL True (visited s)\<rparr> in
                 if cap = 0 then (False, s, [])
                 else
                   (case run_loop W cap sched s of
                      (left, s', evs) \<Rightarrow>
                        (left, s', Dispatch currentURL # worker W s currentURL @ evs)))))"
  by pat_completeness auto

lemma queue_arrive_length: "length (queue (arrive calls s)) \<le> length (queue s) + length calls"
proof -
  have "length (queue (fold apply_call calls s)) \<le> length (queue s) + length calls"
  proof (induction calls arbitrary: s)
    case Nil
    show ?case by simp
  next
    case (Cons c calls)
    have "length (queue (apply_call c s)) \<le> length (queue s) + 1"
      by (cases c) (simp_all add: AddStartURL_def Stop_def ClearVisited_def)
    with Cons [of "apply_call c s"] show ?case by simp
  qed
  then show ?thesis by (simp add: arrive_def)
qed

termination run_loop
proof (relation "measure (\<lambda>(W, cap, sched, s). length (queue s) + length (concat sched))")
  show "wf (measure (\<lambda>(W, cap, sched, s). length (queue s) + length (concat sched)))"
    by simp
next
  fix W :: web and cap :: go_int and sched :: "ext_call list list" and s x xa x21 x22 xb
  assume "x = arrive (case sched of [] \<Rightarrow> [] | calls # _ \<Rightarrow> calls) s"
    and "xa = (case sched of [] \<Rightarrow> [] | _ # rest \<Rightarrow> rest)"
    and "queue x = x21 # x22" and "xb = x\<lparr>queue := x22\<rparr>"
  then show "((W, cap, xa, xb), W, cap, sched, s)
       \<in> measure (\<lambda>(W, cap, sched, s). length (queue s) + length (concat sched))"
    using queue_arrive_length [of "case sched of [] \<Rightarrow> [] | calls # _ \<Rightarrow> calls" s]
    by (cases sched) auto
next
  fix W :: web and cap :: go_int and sched :: "ext_call list list" and s x xa x21 x22 xb xc
  assume "x = arrive (case sched of [] \<Rightarrow> [] | calls # _ \<Rightarrow> calls) s"
    and "xa = (case sched of [] \<Rightarrow> [] | _ # rest \<Rightarrow> rest)"
    and "queue x = x21 # x22" and "xb = x\<lparr>queue := x22\<rparr>"
    and "xc = xb\<lparr>visited := fmupd x21 True (visited xb)\<rparr>"
  then show "((W, cap, xa, xc), W, cap, sched, s)
       \<in> measure (\<lambda>(W, cap, sched, s). length (queue s) + length (concat sched))"
    using queue_arrive_length [of "case sched of [] \<Rightarrow> [] | calls # _ \<Rightarrow> calls" s]
    by (cases sched) auto
qed

text \<open>
  \<^verbatim>\<open>Run\<close> either returns (an error or \<^verbatim>\<open>nil\<close>), or panics in
  \<^verbatim>\<open>make(chan struct{}, s.concurrency)\<close> on a negative capacity (the deferred reset of
  the flag still runs), or never returns.
\<close>

datatype run_result = Returned "crawl_error option" | Panicked | Blocked

definition Run :: "web \<Rightarrow> ext_call list list \<Rightarrow> Spider \<Rightarrow> run_result \<times> Spider \<times> event list" where
  "Run W sched s =
     (if running s then (Returned (Some AlreadyRunning), s, [])
      else
        (let s = s\<lparr>running := True\<rparr> in
         if concurrency s <s 0 then (Panicked, s\<lparr>running := False\<rparr>, [])
         else
           (case run_loop W (concurrency s) sched s of
              (True, s', evs) \<Rightarrow> (Returned None, s'\<lparr>running := False\<rparr>, evs)
            | (False, s', evs) \<Rightarrow> (Blocked, s', evs))))"

subsection \<open>Reading a run\<close>

definition Run_result :: "web \<Rightarrow> ext_call list list \<Rightarrow> Spider \<Rightarrow> run_result" where
  "Run_result W sched s = fst (Run W sched s)"

definition Run_state :: "web \<Rightarrow> ext_call list list \<Rightarrow> Spider \<Rightarrow> Spider" where
  "Run_state W sched s = fst (snd (Run W sched s))"

definition Run_events :: "web \<Rightarrow> ext_call list list \<Rightarrow> Spider \<Rightarrow> event list" where
  "Run_events W sched s = snd (snd (Run W sched s))"

text \<open>The URLs of the requests sent, and the URLs handed to a worker, in order.\<close>

fun fetched :: "event list \<Rightarrow> string list" where
  "fetched [] = []"
| "fetched (HttpDo c r # evs) = req_URL r # fetched evs"
| "fetched (_ # evs) = fetched evs"

fun dispatched :: "event list \<Rightarrow> string list" where
  "dispatched [] = []"
| "dispatched (Dispatch u # evs) = u # dispatched evs"
| "dispatched (_ # evs) = dispatched evs"

text \<open>A schedule in which nobody calls \<^verbatim>\<open>ClearVisited\<close>: one crawl session.\<close>

definition no_clear :: "ext_call list list \<Rightarrow> bool" where
  "no_clear sched = (CallClearVisited \<notin> set (concat sched))"

definition next_calls :: "ext_call list list \<Rightarrow> ext_call list" where
  "next_calls sched = (case sched of [] \<Rightarrow> [] | calls # _ \<Rightarrow> calls)"

definition later_calls :: "ext_call list list \<Rightarrow> ext_call list list" where
  "later_calls sched = (case sched of [] \<Rightarrow> [] | _ # rest \<Rightarrow> rest)"

text \<open>
  The spider as the loop finds it when it tests its condition: at the first test (\<open>n = 0\<close>)
  or \<open>n\<close> passes later, after the calls due before that test have arrived; \<open>None\<close>
  when the loop has left or is stuck before that test. The passes are those of \<open>run_loop\<close>.
\<close>

fun loop_state :: "go_int \<Rightarrow> nat \<Rightarrow> ext_call list list \<Rightarrow> Spider \<Rightarrow> Spider option" where
  "loop_state cap 0 sched s = Some (arrive (next_calls sched) s)"
| "loop_state cap (Suc n) sched s =
     (let s = arrive (next_calls sched) s in
      case queue s of
        [] \<Rightarrow> None
      | currentURL # q \<Rightarrow>
          (let s = s\<lparr>queue := q\<rparr> in
           if isVisited s currentURL then loop_state cap n (later_calls sched) s
           else
             (let s = s\<lparr>visited := fmupd currentURL True (visited s)\<rparr> in
              if cap = 0 then None else loop_state cap n (later_calls sched) s)))"


text \<open>A schedule with its calls of \<^verbatim>\<open>Stop\<close> taken out.\<close>

definition without_Stop :: "ext_call list list \<Rightarrow> ext_call list list" where
  "without_Stop sched = map (filter (\<lambda>c. c \<noteq> CallStop)) sched"

subsection \<open>Resolving a link\<close>

definition ResolveURL :: "'u urllib \<Rightarrow> string \<Rightarrow> string \<Rightarrow> string + string" where
  "ResolveURL U baseURL relativeURL =
     (case url_Parse U baseURL of
        Inl err \<Rightarrow> Inl err
      | Inr base \<Rightarrow>
          (case url_Parse U relativeURL of
             Inl err \<Rightarrow> Inl err
           | Inr relative \<Rightarrow> Inr (url_String U (url_ResolveReference U base relative))))"

section \<open>URL validation (libs/validation.go)\<close>

text \<open>The errors of \<^verbatim>\<open>validateIP\<close> and of \<^verbatim>\<open>ValidateURL\<close>, one constructor per message.\<close>

datatype ip_error =
    LoopbackNotAllowed
  | PrivateNotAllowed
  | LinkLocalNotAllowed
  | MulticastNotAllowed

datatype url_error =
    URLEmpty
  | InvalidURLFormat string
  | DisallowedScheme string
  | HostnameEmpty
  | LocalhostNotAllowed
  | CannotResolve string
  | BlockedIP IP ip_error

definition allowedSchemes :: "string \<rightharpoonup> bool" where
  "allowedSchemes = [''http'' \<mapsto> True, ''https'' \<mapsto> True]"

definition validateScheme :: "string \<Rightarrow> url_error option" where
  "validateScheme scheme =
     (if \<not> (case allowedSchemes scheme of Some b \<Rightarrow> b | None \<Rightarrow> False)
      then Some (DisallowedScheme scheme) else None)"

definition localhostNames :: "string list" where
  "localhostNames = [''localhost'', ''127.0.0.1'', ''::1'', ''0.0.0.0'', ''::'']"

fun matches_any :: "string \<Rightarrow> string list \<Rightarrow> bool" where
  "matches_any hostname [] = False"
| "matches_any hostname (local # locals) =
     (if hostname = local then True else matches_any hostname locals)"

definition isLocalhost :: "netlib \<Rightarrow> string \<Rightarrow> bool" where
  "isLocalhost N hostname = matches_any (strings_ToLower N hostname) localhostNames"

definition validateIP :: "netlib \<Rightarrow> IP \<Rightarrow> ip_error option" where
  "validateIP N ip =
     (if IsLoopback N ip then Some LoopbackNotAllowed
      else if IsPrivate N ip then Some PrivateNotAllowed
      else if IsLinkLocalUnicast N ip then Some LinkLocalNotAllowed
      else if IsMulticast N ip then Some MulticastNotAllowed
      else None)"

text \<open>The loop over the resolved addresses: it returns at the first blocked one.\<close>

fun validate_ips :: "netlib \<Rightarrow> IP list \<Rightarrow> url_error option" where
  "validate_ips N [] = None"
| "validate_ips N (ip # ips) =
     (case validateIP N ip of
        Some err \<Rightarrow> Some (BlockedIP ip err)
      | None \<Rightarrow> validate_ips N ips)"

text \<open>
  \<^verbatim>\<open>validateHostname\<close> and \<^verbatim>\<open>ValidateURL\<close> return the error (\<open>None\<close> for
  \<^verbatim>\<open>nil\<close>) together with the host names handed to \<^verbatim>\<open>net.LookupIP\<close>, in order: the
  DNS queries the call has issued.
\<close>

definition validateHostname :: "netlib \<Rightarrow> string \<Rightarrow> url_error option \<times> string list" where
  "validateHostname N hostname =
     (if hostname = [] then (Some HostnameEmpty, [])
      else if isLocalhost N hostname then (Some LocalhostNotAllowed, [])
      else (case net_LookupIP N hostname of
              Inl err \<Rightarrow> (Some (CannotResolve err), [hostname])
            | Inr ips \<Rightarrow> (validate_ips N ips, [hostname])))"

definition ValidateURL :: "'u urllib \<Rightarrow> netlib \<Rightarrow> string \<Rightarrow> url_error option \<times> string list" where
  "ValidateURL U N rawURL =
     (if rawURL = [] then (Some URLEmpty, [])
      else (case url_Parse U rawURL of
              Inl err \<Rightarrow> (Some (InvalidURLFormat err), [])
            | Inr parsedURL \<Rightarrow>
                (let scheme = strings_ToLower N (url_Scheme U parsedURL) in
                 case validateScheme scheme of
                   Some err \<Rightarrow> (Some err, [])
                 | None \<Rightarrow> validateHostname N (url_Hostname U parsedURL))))"

section \<open>The URL library, after RFC 3986\<close>

text \<open>
  Modelled from the spec: \<^verbatim>\<open>url.Parse\<close>, \<^verbatim>\<open>URL.ResolveReference\<close> and
  \<^verbatim>\<open>URL.String\<close> are functions of Go's standard library and are missing from the
  sources. The spec says of them: standard base-URL-relative-reference resolution (RFC 3986
  semantics), and a malformed base or relative input yields an error. The definitions below
  follow RFC 3986: a reference is split into its five components as in Appendix B, it is
  malformed when a component violates the grammar of section 3 (or, for a relative-path
  reference, when its first segment holds a colon, section 4.2), a scheme is produced in lower
  case (section 3.1), references are resolved by the algorithm of section 5.2.2 with the merge
  of 5.2.3 and the removal of dot segments of 5.2.4, and recomposed as in section 5.3.
\<close>

record uri =
  uri_scheme :: "string option"
  uri_authority :: "string option"
  uri_path :: string
  uri_query :: "string option"
  uri_fragment :: "string option"

definition ALPHA :: "char \<Rightarrow> bool" where
  "ALPHA c = (c \<in> set ''abcdefghijklmnopqrstuvwxyzABCDEFGHIJKLMNOPQRSTUVWXYZ'')"

definition DIGIT :: "char \<Rightarrow> bool" where
  "DIGIT c = (c \<in> set ''0123456789'')"

definition HEXDIG :: "char \<Rightarrow> bool" where
  "HEXDIG c = (DIGIT c \<or> c \<in> set ''abcdefABCDEF'')"

definition unreserved :: "char \<Rightarrow> bool" where
  "unreserved c = (ALPHA c \<or> DIGIT c \<or> c \<in> set ''-._~'')"

definition sub_delims :: "char \<Rightarrow> bool" where
  "sub_delims c = (c \<in> set ''!$&()*+,;='' \<or> c = CHR 0x27)"

definition pchar :: "char \<Rightarrow> bool" where
  "pchar c = (unreserved c \<or> sub_delims c \<or> c \<in> set '':@'')"

fun pct_string :: "(char \<Rightarrow> bool) \<Rightarrow> string \<Rightarrow> bool" where
  "pct_string ok [] = True"
| "pct_string ok (c # cs) =
     (if c = CHR ''%''
      then (case cs of
              h1 # h2 # rest \<Rightarrow> HEXDIG h1 \<and> HEXDIG h2 \<and> pct_string ok rest
            | _ \<Rightarrow> False)
      else ok c \<and> pct_string ok cs)"

definition to_lower :: "char \<Rightarrow> char" where
  "to_lower c =
     (case map_of (zip ''ABCDEFGHIJKLMNOPQRSTUVWXYZ'' ''abcdefghijklmnopqrstuvwxyz'') c of
        Some d \<Rightarrow> d | None \<Rightarrow> c)"

definition cut_scheme :: "string \<Rightarrow> string option \<times> string" where
  "cut_scheme s =
     (let pre = takeWhile (\<lambda>c. c \<notin> set '':/?#'') s;
          rest = dropWhile (\<lambda>c. c \<notin> set '':/?#'') s
      in if pre \<noteq> [] \<and> take 1 rest = '':'' then (Some pre, drop 1 rest) else (None, s))"

definition cut_authority :: "string \<Rightarrow> string option \<times> string" where
  "cut_authority s =
     (if take 2 s = ''//''
      then (Some (takeWhile (\<lambda>c. c \<notin> set ''/?#'') (drop 2 s)),
            dropWhile (\<lambda>c. c \<notin> set ''/?#'') (drop 2 s))
      else (None, s))"

definition cut_path :: "string \<Rightarrow> string \<times> string" where
  "cut_path s = (takeWhile (\<lambda>c. c \<notin> set ''?#'') s, dropWhile (\<lambda>c. c \<notin> set ''?#'') s)"

definition cut_query :: "string \<Rightarrow> string option \<times> string" where
  "cut_query s =
     (if take 1 s = ''?''
      then (Some (takeWhile (\<lambda>c. c \<noteq> CHR ''#'') (drop 1 s)),
            dropWhile (\<lambda>c. c \<noteq> CHR ''#'') (drop 1 s))
      else (None, s))"

definition cut_fragment :: "string \<Rightarrow> string option" where
  "cut_fragment s = (if take 1 s = ''#'' then Some (drop 1 s) else None)"

text \<open>Modelled from the spec: the component split of \<^verbatim>\<open>url.Parse\<close>, after RFC 3986,
  Appendix B: scheme, authority, path, query and fragment, each cut off in turn.\<close>

definition split_uri :: "string \<Rightarrow> uri" where
  "split_uri s =
     (case cut_scheme s of (scheme, r1) \<Rightarrow>
      case cut_authority r1 of (authority, r2) \<Rightarrow>
      case cut_path r2 of (path, r3) \<Rightarrow>
      case cut_query r3 of (query, r4) \<Rightarrow>
        \<lparr>uri_scheme = scheme, uri_authority = authority, uri_path = path,
         uri_query = query, uri_fragment = cut_fragment r4\<rparr>)"

text \<open>Modelled from the spec: \<^verbatim>\<open>URL.String\<close>, after RFC 3986, section 5.3.\<close>

definition recompose :: "uri \<Rightarrow> string" where
  "recompose u =
     (case uri_scheme u of Some s \<Rightarrow> s @ '':'' | None \<Rightarrow> [])
     @ (case uri_authority u of Some a \<Rightarrow> ''//'' @ a | None \<Rightarrow> [])
     @ uri_path u
     @ (case uri_query u of Some q \<Rightarrow> ''?'' @ q | None \<Rightarrow> [])
     @ (case uri_fragment u of Some f \<Rightarrow> ''#'' @ f | None \<Rightarrow> [])"


definition valid_scheme :: "string \<Rightarrow> bool" where
  "valid_scheme sc =
     (case sc of
        [] \<Rightarrow> False
      | c # cs \<Rightarrow> ALPHA c \<and> list_all (\<lambda>c. ALPHA c \<or> DIGIT c \<or> c \<in> set ''+-.'') cs)"

fun split_on :: "char \<Rightarrow> string \<Rightarrow> string list" where
  "split_on sep [] = [[]]"
| "split_on sep (c # cs) =
     (if c = sep then [] # split_on sep cs
      else (case split_on sep cs of
              [] \<Rightarrow> [[c]]
            | part # parts \<Rightarrow> (c # part) # parts))"

fun dec_value :: "nat \<Rightarrow> string \<Rightarrow> nat" where
  "dec_value acc [] = acc"
| "dec_value acc (c # cs) = dec_value (10 * acc + (of_char c - 48)) cs"

definition dec_octet :: "string \<Rightarrow> bool" where
  "dec_octet d =
     (d \<noteq> [] \<and> length d \<le> 3 \<and> list_all DIGIT d
      \<and> (length d = 1 \<or> take 1 d \<noteq> ''0'') \<and> dec_value 0 d \<le> 255)"

definition IPv4address :: "string \<Rightarrow> bool" where
  "IPv4address s = (length (split_on (CHR ''.'') s) = 4 \<and> list_all dec_octet (split_on (CHR ''.'') s))"

definition h16 :: "string \<Rightarrow> bool" where
  "h16 g = (g \<noteq> [] \<and> length g \<le> 4 \<and> list_all HEXDIG g)"

text \<open>The number of 16-bit pieces a colon-separated list stands for; only its last
  entry may be an IPv4 address, which stands for two.\<close>

fun piece_count :: "string list \<Rightarrow> nat option" where
  "piece_count [] = Some 0"
| "piece_count [g] = (if h16 g then Some 1 else if IPv4address g then Some 2 else None)"
| "piece_count (g # gs) = (if h16 g then map_option Suc (piece_count gs) else None)"

fun cut_double_colon :: "string \<Rightarrow> (string \<times> string) option" where
  "cut_double_colon (c # d # r) =
     (if c = CHR '':'' \<and> d = CHR '':'' then Some ([], r)
      else map_option (\<lambda>(l, r'). (c # l, r')) (cut_double_colon (d # r)))"
| "cut_double_colon _ = None"

definition IPv6address :: "string \<Rightarrow> bool" where
  "IPv6address s =
     (case cut_double_colon s of
        None \<Rightarrow> piece_count (split_on (CHR '':'') s) = Some 8
      | Some (l, r) \<Rightarrow>
          (l = [] \<or> list_all h16 (split_on (CHR '':'') l))
          \<and> (case (if r = [] then Some 0 else piece_count (split_on (CHR '':'') r)) of
                None \<Rightarrow> False
              | Some n \<Rightarrow> (if l = [] then 0 else length (split_on (CHR '':'') l)) + n \<le> 7))"

definition IPvFuture :: "string \<Rightarrow> bool" where
  "IPvFuture s =
     (case s of
        [] \<Rightarrow> False
      | v # r \<Rightarrow>
          (v = CHR ''v'' \<or> v = CHR ''V'')
          \<and> takeWhile HEXDIG r \<noteq> []
          \<and> take 1 (dropWhile HEXDIG r) = ''.''
          \<and> drop 1 (dropWhile HEXDIG r) \<noteq> []
          \<and> list_all (\<lambda>c. unreserved c \<or> sub_delims c \<or> c = CHR '':'') (drop 1 (dropWhile HEXDIG r)))"

definition valid_port :: "string \<Rightarrow> bool" where
  "valid_port r = (r = [] \<or> (take 1 r = '':'' \<and> list_all DIGIT (drop 1 r)))"

definition valid_hostport :: "string \<Rightarrow> bool" where
  "valid_hostport hp =
     (if take 1 hp = ''[''
      then (let lit = takeWhile (\<lambda>c. c \<noteq> CHR '']'') (drop 1 hp);
                rest = dropWhile (\<lambda>c. c \<noteq> CHR '']'') (drop 1 hp)
            in take 1 rest = '']'' \<and> (IPv6address lit \<or> IPvFuture lit) \<and> valid_port (drop 1 rest))
      else pct_string (\<lambda>c. unreserved c \<or> sub_delims c) (takeWhile (\<lambda>c. c \<noteq> CHR '':'') hp)
           \<and> valid_port (dropWhile (\<lambda>c. c \<noteq> CHR '':'') hp))"

definition valid_authority :: "string \<Rightarrow> bool" where
  "valid_authority a =
     (if CHR ''@'' \<in> set a
      then pct_string (\<lambda>c. unreserved c \<or> sub_delims c \<or> c = CHR '':'')
             (takeWhile (\<lambda>c. c \<noteq> CHR ''@'') a)
           \<and> valid_hostport (drop 1 (dropWhile (\<lambda>c. c \<noteq> CHR ''@'') a))
      else valid_hostport a)"

text \<open>Modelled from the spec: what \<^verbatim>\<open>url.Parse\<close> accepts, after the grammar of RFC 3986,
  sections 3.1 to 3.5 and 4.2.\<close>

definition wellformed :: "uri \<Rightarrow> bool" where
  "wellformed u =
     ((case uri_scheme u of Some sc \<Rightarrow> valid_scheme sc | None \<Rightarrow> True)
      \<and> (case uri_authority u of Some a \<Rightarrow> valid_authority a | None \<Rightarrow> True)
      \<and> pct_string (\<lambda>c. pchar c \<or> c = CHR ''/'') (uri_path u)
      \<and> (uri_scheme u = None \<and> uri_authority u = None \<longrightarrow>
            CHR '':'' \<notin> set (takeWhile (\<lambda>c. c \<noteq> CHR ''/'') (uri_path u)))
      \<and> (case uri_query u of Some q \<Rightarrow> pct_string (\<lambda>c. pchar c \<or> c \<in> set ''/?'') q | None \<Rightarrow> True)
      \<and> (case uri_fragment u of Some f \<Rightarrow> pct_string (\<lambda>c. pchar c \<or> c \<in> set ''/?'') f | None \<Rightarrow> True))"

text \<open>Modelled from the spec: \<^verbatim>\<open>url.Parse\<close>. The scheme is produced in lower case
  (RFC 3986, section 3.1).\<close>

definition uri_Parse :: "string \<Rightarrow> string + uri" where
  "uri_Parse s =
     (let u = split_uri s in
      if wellformed u then Inr (u\<lparr>uri_scheme := map_option (map to_lower) (uri_scheme u)\<rparr>)
      else Inl ''malformed URI reference'')"

definition first_segment :: "string \<Rightarrow> string" where
  "first_segment inp =
     (if take 1 inp = ''/'' then CHR ''/'' # takeWhile (\<lambda>c. c \<noteq> CHR ''/'') (drop 1 inp)
      else takeWhile (\<lambda>c. c \<noteq> CHR ''/'') inp)"

definition remove_last_segment :: "string \<Rightarrow> string" where
  "remove_last_segment out = rev (drop 1 (dropWhile (\<lambda>c. c \<noteq> CHR ''/'') (rev out)))"

text \<open>Modelled from the spec: the removal of dot segments, after RFC 3986, section 5.2.4,
  with its input and output buffers.\<close>

function dot_loop :: "string \<Rightarrow> string \<Rightarrow> string" where
  "dot_loop inp out =
     (if inp = [] then out
      else if take 3 inp = ''../'' then dot_loop (drop 3 inp) out
      else if take 2 inp = ''./'' then dot_loop (drop 2 inp) out
      else if take 3 inp = ''/./'' then dot_loop (drop 2 inp) out
      else if inp = ''/.'' then dot_loop ''/'' out
      else if take 4 inp = ''/../'' then dot_loop (drop 3 inp) (remove_last_segment out)
      else if inp = ''/..'' then dot_loop ''/'' (remove_last_segment out)
      else if inp = ''.'' \<or> inp = ''..'' then out
      else dot_loop (drop (length (first_segment inp)) inp) (out @ first_segment inp))"
  by pat_completeness auto
termination
proof (relation "measure (\<lambda>(inp, out). length inp)")
  fix inp out :: string
  assume "inp \<noteq> []"
  then have "0 < length (first_segment inp)"
    by (cases inp) (auto simp: first_segment_def)
  with \<open>inp \<noteq> []\<close> show "((drop (length (first_segment inp)) inp, out @ first_segment inp), inp, out)
      \<in> measure (\<lambda>(inp, out). length inp)"
    by (cases inp) auto
qed auto

definition remove_dot_segments :: "string \<Rightarrow> string" where
  "remove_dot_segments p = dot_loop p []"

text \<open>Modelled from the spec: the merge of a relative path with the base path, after
  RFC 3986, section 5.2.3.\<close>

definition merge_paths :: "uri \<Rightarrow> string \<Rightarrow> string" where
  "merge_paths base rpath =
     (if uri_authority base \<noteq> None \<and> uri_path base = [] then CHR ''/'' # rpath
      else rev (dropWhile (\<lambda>c. c \<noteq> CHR ''/'') (rev (uri_path base))) @ rpath)"

text \<open>Modelled from the spec: \<^verbatim>\<open>URL.ResolveReference\<close>, after the algorithm of RFC 3986,
  section 5.2.2.\<close>

definition resolve :: "uri \<Rightarrow> uri \<Rightarrow> uri" where
  "resolve base r =
     (if uri_scheme r \<noteq> None
      then \<lparr>uri_scheme = uri_scheme r, uri_authority = uri_authority r,
            uri_path = remove_dot_segments (uri_path r), uri_query = uri_query r,
            uri_fragment = uri_fragment r\<rparr>
      else if uri_authority r \<noteq> None
      then \<lparr>uri_scheme = uri_scheme base, uri_authority = uri_authority r,
            uri_path = remove_dot_segments (uri_path r), uri_query = uri_query r,
            uri_fragment = uri_fragment r\<rparr>
      else if uri_path r = []
      then \<lparr>uri_scheme = uri_scheme base, uri_authority = uri_authority base,
            uri_path = uri_path base,
            uri_query = (if uri_query r \<noteq> None then uri_query r else uri_query base),
            uri_fragment = uri_fragment r\<rparr>
      else if take 1 (uri_path r) = ''/''
      then \<lparr>uri_scheme = uri_scheme base, uri_authority = uri_authority base,
            uri_path = remove_dot_segments (uri_path r), uri_query = uri_query r,
            uri_fragment = uri_fragment r\<rparr>
      else \<lparr>uri_scheme = uri_scheme base, uri_authority = uri_authority base,
            uri_path = remove_dot_segments (merge_paths base (uri_path r)), uri_query = uri_query r,
            uri_fragment = uri_fragment r\<rparr>)"



text \<open>Modelled from the spec: \<^verbatim>\<open>URL.Hostname\<close>, the host of a reference: its authority
  without user information and port, and without the brackets of an IP literal.\<close>

definition uri_Hostname :: "uri \<Rightarrow> string" where
  "uri_Hostname u =
     (case uri_authority u of
        None \<Rightarrow> []
      | Some a \<Rightarrow>
          (let hp = (if CHR ''@'' \<in> set a then drop 1 (dropWhile (\<lambda>c. c \<noteq> CHR ''@'') a) else a)
           in if take 1 hp = ''['' then takeWhile (\<lambda>c. c \<noteq> CHR '']'') (drop 1 hp)
              else takeWhile (\<lambda>c. c \<noteq> CHR '':'') hp))"

text \<open>Modelled from the spec: package \<^verbatim>\<open>net/url\<close> as a whole.\<close>

definition rfc3986 :: "uri urllib" where
  "rfc3986 =
     \<lparr>url_Parse = uri_Parse,
      url_Scheme = (\<lambda>u. case uri_scheme u of Some sc \<Rightarrow> sc | None \<Rightarrow> []),
      url_Hostname = uri_Hostname,
      url_ResolveReference = resolve,
      url_String = recompose\<rparr>"

section \<open>An example environment\<close>

text \<open>
  One concrete choice of the parameters, for evaluating the definitions at concrete inputs: a
  URL library that knows a handful of URLs (a parsed URL is its scheme and its host with the
  port), a resolver with three names, the address classes on four-byte addresses, and a web
  that answers four URLs.
\<close>

definition ascii_lower :: "char \<Rightarrow> char" where
  "ascii_lower c =
     (case map_of (zip ''ABCDEFGHIJKLMNOPQRSTUVWXYZ'' ''abcdefghijklmnopqrstuvwxyz'') c of
        Some d \<Rightarrow> d | None \<Rightarrow> c)"

definition example_Parse :: "string \<Rightarrow> string + string \<times> string" where
  "example_Parse s =
     (if s = ''https://example.com/path'' then Inr (''https'', ''example.com'')
      else if s = ''http://LocalHost:8080'' then Inr (''http'', ''LocalHost:8080'')
      else if s = ''http://127.0.0.1:8080/api'' then Inr (''http'', ''127.0.0.1:8080'')
      else if s = ''http://10.0.0.1/internal'' then Inr (''http'', ''10.0.0.1'')
      else if s = ''http://mixed.test/'' then Inr (''http'', ''mixed.test'')
      else if s = ''http://nowhere.test/'' then Inr (''http'', ''nowhere.test'')
      else if s = ''file:///etc/passwd'' then Inr (''file'', [])
      else if s = ''http:///path'' then Inr (''http'', [])
      else Inl ''parse error'')"

definition example_urllib :: "(string \<times> string) urllib" where
  "example_urllib =
     \<lparr>url_Parse = example_Parse,
      url_Scheme = fst,
      url_Hostname = (\<lambda>u. takeWhile (\<lambda>c. c \<noteq> CHR '':'') (snd u)),
      url_ResolveReference = (\<lambda>base ref. ref),
      url_String = (\<lambda>u. fst u @ ''://'' @ snd u)\<rparr>"

definition example_LookupIP :: "string \<Rightarrow> string + IP list" where
  "example_LookupIP h =
     (if h = ''example.com'' then Inr [[93, 184, 216, 34]]
      else if h = ''10.0.0.1'' then Inr [[10, 0, 0, 1]]
      else if h = ''mixed.test'' then Inr [[93, 184, 216, 34], [192, 168, 1, 1]]
      else Inl ''no such host'')"

definition example_netlib :: netlib where
  "example_netlib =
     \<lparr>strings_ToLower = map ascii_lower,
      net_LookupIP = example_LookupIP,
      IsLoopback = (\<lambda>ip. case ip of a # _ \<Rightarrow> a = 127 | [] \<Rightarrow> False),
      IsPrivate = (\<lambda>ip. case ip of
                      a # b # _ \<Rightarrow> a = 10 \<or> (a = 172 \<and> and b 240 = 16) \<or> (a = 192 \<and> b = 168)
                    | _ \<Rightarrow> False),
      IsLinkLocalUnicast = (\<lambda>ip. case ip of a # b # _ \<Rightarrow> a = 169 \<and> b = 254 | _ \<Rightarrow> False),
      IsMulticast = (\<lambda>ip. case ip of a # _ \<Rightarrow> and a 240 = 224 | [] \<Rightarrow> False)\<rparr>"

definition example_web :: web where
  "example_web =
     \<lparr>http_NewRequest =
        (\<lambda>method url. if url = ''::bad'' then Some ''missing protocol scheme'' else None),
      http_Do = (\<lambda>client req.
         if req_URL req = ''https://example.com/''
           then Inr \<lparr>StatusCode = 200, Body = ''<html><body><h1>Test</h1></body></html>''\<rparr>
         else if req_URL req = ''https://example.com/empty''
           then Inr \<lparr>StatusCode = 204, Body = []\<rparr>
         else if req_URL req = ''https://example.com/missing''
           then Inr \<lparr>StatusCode = 404, Body = ''Not Found''\<rparr>
         else if req_URL req = ''http://127.0.0.1:8080/api''
           then Inr \<lparr>StatusCode = 200, Body = ''internal''\<rparr>
         else Inl ''connection refused''),
      goquery_NewDocument = (\<lambda>body. Inr (Document body))\<rparr>"

text \<open>A spider with the default configuration and the given start URLs.\<close>

definition example_spider :: "string list \<Rightarrow> Spider" where
  "example_spider urls =
     fold AddStartURL urls
       (NewSpider \<lparr>MaxDepth = 0, Concurrency = 0, UserAgent = [], Delay = 0, Timeout = 0\<rparr>)"

section \<open>Properties of the model\<close>

declare run_loop.simps [simp del]

subsection \<open>The driving loop\<close>

lemma fetched_append: "fetched (xs @ ys) = fetched xs @ fetched ys"
  by (induction xs rule: fetched.induct) auto

lemma dispatched_append: "dispatched (xs @ ys) = dispatched xs @ dispatched ys"
  by (induction xs rule: dispatched.induct) auto

lemma fetched_crawlURL:
  "fetched (snd (crawlURL W s u)) = (if http_NewRequest W ''GET'' u = None then [u] else [])"
  by (auto simp: crawlURL_def Let_def split: option.splits sum.splits)

lemma dispatched_crawlURL: "dispatched (snd (crawlURL W s u)) = []"
  by (auto simp: crawlURL_def Let_def split: option.splits sum.splits)

lemma fetched_worker:
  "fetched (worker W s u) = (if http_NewRequest W ''GET'' u = None then [u] else [])"
  using fetched_crawlURL [of W s u]
  by (auto simp: worker_def fetched_append split: prod.splits option.splits)

lemma dispatched_worker: "dispatched (worker W s u) = []"
  using dispatched_crawlURL [of W s u]
  by (auto simp: worker_def dispatched_append split: prod.splits option.splits)

lemma run_loop_step:
  "run_loop W cap sched s =
     (case queue (arrive (next_calls sched) s) of
        [] \<Rightarrow> (True, arrive (concat (later_calls sched)) (arrive (next_calls sched) s), [])
      | u # q \<Rightarrow>
          if isVisited (arrive (next_calls sched) s) u
          then run_loop W cap (later_calls sched) ((arrive (next_calls sched) s)\<lparr>queue := q\<rparr>)
          else if cap = 0
          then (False, (arrive (next_calls sched) s)
                  \<lparr>queue := q, visited := fmupd u True (visited (arrive (next_calls sched) s))\<rparr>, [])
          else (let s2 = (arrive (next_calls sched) s)
                          \<lparr>queue := q, visited := fmupd u True (visited (arrive (next_calls sched) s))\<rparr>;
                    r = run_loop W cap (later_calls sched) s2
                in (fst r, fst (snd r), Dispatch u # worker W s2 u @ snd (snd r))))"
  by (subst run_loop.simps)
     (simp add: Let_def next_calls_def later_calls_def isVisited_def split_beta split: list.splits)

lemma run_loop_induct [case_names Empty Skip Mark]:
  assumes empty: "\<And>sched s. queue (arrive (next_calls sched) s) = [] \<Longrightarrow> P sched s"
    and skip: "\<And>sched s u q.
        queue (arrive (next_calls sched) s) = u # q \<Longrightarrow>
        isVisited (arrive (next_calls sched) s) u \<Longrightarrow>
        P (later_calls sched) ((arrive (next_calls sched) s)\<lparr>queue := q\<rparr>) \<Longrightarrow> P sched s"
    and mark: "\<And>sched s u q.
        queue (arrive (next_calls sched) s) = u # q \<Longrightarrow>
        \<not> isVisited (arrive (next_calls sched) s) u \<Longrightarrow>
        P (later_calls sched)
          ((arrive (next_calls sched) s)
             \<lparr>queue := q, visited := fmupd u True (visited (arrive (next_calls sched) s))\<rparr>) \<Longrightarrow>
        P sched s"
  shows "P sched s"
proof (induction "length (queue s) + length (concat sched)" arbitrary: sched s rule: less_induct)
  case less
  let ?s0 = "arrive (next_calls sched) s"
  show ?case
  proof (cases "queue ?s0")
    case Nil
    then show ?thesis by (rule empty)
  next
    case (Cons u q)
    have len: "length q + length (concat (later_calls sched))
                 < length (queue s) + length (concat sched)"
      using queue_arrive_length [of "next_calls sched" s] Cons
      by (cases sched) (auto simp: next_calls_def later_calls_def)
    show ?thesis
    proof (cases "isVisited ?s0 u")
      case True
      show ?thesis
        by (rule skip [OF Cons True]) (rule less, use len in simp)
    next
      case False
      show ?thesis
        by (rule mark [OF Cons False]) (rule less, use len in simp)
    qed
  qed
qed

lemma arrive_Nil [simp]: "arrive [] s = s"
  by (simp add: arrive_def)

lemma arrive_Cons: "arrive (c # cs) s = arrive cs (apply_call c s)"
  by (simp add: arrive_def)

lemma isVisited_queue_update [simp]: "isVisited (s\<lparr>queue := q\<rparr>) u = isVisited s u"
  by (simp add: isVisited_def)

lemma isVisited_mark [simp]:
  "isVisited (s\<lparr>queue := q, visited := fmupd u True (visited s)\<rparr>) v = (v = u \<or> isVisited s v)"
  by (simp add: isVisited_def)

lemma arrive_still_unvisited: "\<not> isVisited s u \<Longrightarrow> \<not> isVisited (arrive calls s) u"
proof (induction calls arbitrary: s)
  case Nil
  then show ?case by simp
next
  case (Cons c calls)
  have "\<not> isVisited (apply_call c s) u"
    using Cons.prems by (cases c) (simp_all add: isVisited_def AddStartURL_def Stop_def ClearVisited_def)
  then show ?case by (simp add: arrive_Cons Cons.IH)
qed

lemma arrive_keeps_queued: "u \<in> set (queue s) \<Longrightarrow> u \<in> set (queue (arrive calls s))"
proof (induction calls arbitrary: s)
  case Nil
  then show ?case by simp
next
  case (Cons c calls)
  have "u \<in> set (queue (apply_call c s))"
    using Cons.prems by (cases c) (simp_all add: AddStartURL_def Stop_def ClearVisited_def)
  then show ?case by (simp add: arrive_Cons Cons.IH)
qed

lemma arrive_visited: "CallClearVisited \<notin> set calls \<Longrightarrow> visited (arrive calls s) = visited s"
proof (induction calls arbitrary: s)
  case Nil
  then show ?case by simp
next
  case (Cons c calls)
  have "visited (apply_call c s) = visited s"
    using Cons.prems by (cases c) (simp_all add: AddStartURL_def Stop_def)
  with Cons show ?case by (simp add: arrive_Cons)
qed

lemma no_clear_next: "no_clear sched \<Longrightarrow> CallClearVisited \<notin> set (next_calls sched)"
  by (cases sched) (auto simp: no_clear_def next_calls_def)

lemma no_clear_later: "no_clear sched \<Longrightarrow> no_clear (later_calls sched)"
  by (cases sched) (auto simp: no_clear_def later_calls_def)

lemma isVisited_arrive: "no_clear sched \<Longrightarrow> isVisited (arrive (next_calls sched) s) u = isVisited s u"
  by (simp add: isVisited_def arrive_visited no_clear_next)

lemma no_clear_rest: "no_clear sched \<Longrightarrow> CallClearVisited \<notin> set (concat (later_calls sched))"
  by (cases sched) (auto simp: no_clear_def later_calls_def)



text \<open>With a positive capacity the loop leaves.\<close>

lemma run_loop_leaves: "cap \<noteq> 0 \<Longrightarrow> fst (run_loop W cap sched s)"
proof (induction sched s rule: run_loop_induct)
  case (Empty sched s)
  then show ?case by (subst run_loop_step) simp
next
  case (Skip sched s u q)
  then show ?case by (subst run_loop_step) simp
next
  case (Mark sched s u q)
  then show ?case by (subst run_loop_step) (simp add: Let_def)
qed


text \<open>Every URL that waits in the queue unvisited is handed to a worker.\<close>

lemma run_loop_dispatches_queued:
  "cap \<noteq> 0 \<Longrightarrow> u \<in> set (queue s) \<Longrightarrow> \<not> isVisited s u \<Longrightarrow>
     u \<in> set (dispatched (snd (snd (run_loop W cap sched s))))"
proof (induction sched s rule: run_loop_induct)
  case (Empty sched s)
  with arrive_keeps_queued [of u s "next_calls sched"] show ?case by simp
next
  case (Skip sched s v q)
  from Skip.prems have "u \<in> set (queue (arrive (next_calls sched) s))"
    and nv: "\<not> isVisited (arrive (next_calls sched) s) u"
    by (simp_all add: arrive_keeps_queued arrive_still_unvisited)
  with Skip.hyps have "u \<in> set q" by auto
  with Skip nv show ?case by (subst run_loop_step) simp
next
  case (Mark sched s v q)
  from Mark.prems have inq: "u \<in> set (queue (arrive (next_calls sched) s))"
    and nv: "\<not> isVisited (arrive (next_calls sched) s) u"
    by (simp_all add: arrive_keeps_queued arrive_still_unvisited)
  show ?case
  proof (cases "u = v")
    case True
    with Mark show ?thesis by (subst run_loop_step) (simp add: Let_def)
  next
    case False
    with inq Mark.hyps have "u \<in> set q" by auto
    with Mark False nv show ?thesis
      by (subst run_loop_step) (simp add: Let_def dispatched_append dispatched_worker)
  qed
qed

text \<open>What the loop fetches is what it dispatches, where a request can be built.\<close>

lemma run_loop_fetched:
  "fetched (snd (snd (run_loop W cap sched s)))
     = filter (\<lambda>u. http_NewRequest W ''GET'' u = None) (dispatched (snd (snd (run_loop W cap sched s))))"
proof (induction sched s rule: run_loop_induct)
  case (Empty sched s)
  then show ?case by (subst (1 2) run_loop_step) simp
next
  case (Skip sched s u q)
  then show ?case by (subst (1 2) run_loop_step) simp
next
  case (Mark sched s u q)
  then show ?case
    by (subst (1 2) run_loop_step)
       (simp add: Let_def fetched_append dispatched_append fetched_worker dispatched_worker)
qed

text \<open>Without a call of \<^verbatim>\<open>ClearVisited\<close>, the visited map only grows, by the dispatched URLs.\<close>

lemma run_loop_visited:
  "cap \<noteq> 0 \<Longrightarrow> no_clear sched \<Longrightarrow>
     distinct (dispatched (snd (snd (run_loop W cap sched s))))
     \<and> (\<forall>u \<in> set (dispatched (snd (snd (run_loop W cap sched s)))). \<not> isVisited s u)
     \<and> (\<forall>u. isVisited (fst (snd (run_loop W cap sched s))) u
              = (isVisited s u \<or> u \<in> set (dispatched (snd (snd (run_loop W cap sched s))))))
     \<and> fmdom (visited (fst (snd (run_loop W cap sched s))))
         = fmdom (visited s) |\<union>| fset_of_list (dispatched (snd (snd (run_loop W cap sched s))))"
proof (induction sched s rule: run_loop_induct)
  case (Empty sched s)
  have "visited (arrive (concat (later_calls sched)) (arrive (next_calls sched) s)) = visited s"
    using Empty.prems(2)
    by (simp only: arrive_visited [OF no_clear_rest] arrive_visited [OF no_clear_next])
  with Empty.hyps show ?case
    by (subst (1 2 3 4 5 6) run_loop_step) (simp add: isVisited_def)
next
  case (Skip sched s u q)
  then show ?case
    by (subst (1 2 3 4 5 6) run_loop_step)
       (simp add: isVisited_arrive arrive_visited no_clear_next no_clear_later)
next
  case (Mark sched s u q)
  define s2 where "s2 = (arrive (next_calls sched) s)
      \<lparr>queue := q, visited := fmupd u True (visited (arrive (next_calls sched) s))\<rparr>"
  define r where "r = run_loop W cap (later_calls sched) s2"
  have s2v: "isVisited s2 v = (v = u \<or> isVisited s v)" for v
    using Mark.prems by (simp add: s2_def isVisited_arrive)
  have s2d: "fmdom (visited s2) = finsert u (fmdom (visited s))"
    using Mark.prems by (simp add: s2_def arrive_visited no_clear_next)
  from Mark.hyps(2) Mark.prems have nu: "\<not> isVisited s u"
    by (simp add: isVisited_arrive)
  have IH: "distinct (dispatched (snd (snd r)))"
    "\<forall>v \<in> set (dispatched (snd (snd r))). \<not> isVisited s2 v"
    "\<forall>v. isVisited (fst (snd r)) v = (isVisited s2 v \<or> v \<in> set (dispatched (snd (snd r))))"
    "fmdom (visited (fst (snd r))) = fmdom (visited s2) |\<union>| fset_of_list (dispatched (snd (snd r)))"
    using Mark.IH Mark.prems by (simp_all add: no_clear_later r_def s2_def)
  have R: "run_loop W cap sched s = (fst r, fst (snd r), Dispatch u # worker W s2 u @ snd (snd r))"
    using Mark.hyps Mark.prems(1) by (subst run_loop_step) (simp add: Let_def r_def s2_def)
  show ?case
    unfolding R using IH nu
    by (auto simp: s2v s2d dispatched_append dispatched_worker)
qed

lemma positive_capacity: "0 <s (c :: go_int) \<Longrightarrow> c \<noteq> 0 \<and> \<not> c <s 0"
  by (auto simp: word_sless_alt)


lemma Run_positive:
  assumes "\<not> running s" and "0 <s concurrency s"
  shows "Run W sched s =
           (Returned None,
            (fst (snd (run_loop W (concurrency s) sched (s\<lparr>running := True\<rparr>))))\<lparr>running := False\<rparr>,
            snd (snd (run_loop W (concurrency s) sched (s\<lparr>running := True\<rparr>))))"
proof -
  from positive_capacity [OF assms(2)] have c: "concurrency s \<noteq> 0" "\<not> concurrency s <s 0"
    by simp_all
  from run_loop_leaves [OF c(1)] have "fst (run_loop W (concurrency s) sched (s\<lparr>running := True\<rparr>))"
    by simp
  with assms(1) c show ?thesis
    by (simp add: Run_def Let_def split_beta split: bool.splits)
qed


lemma run_loop_cap0: "snd (snd (run_loop W 0 sched s)) = []"
proof (induction sched s rule: run_loop_induct)
  case (Empty sched s)
  then show ?case by (subst run_loop_step) simp
next
  case (Skip sched s u q)
  then show ?case by (subst run_loop_step) simp
next
  case (Mark sched s u q)
  then show ?case by (subst run_loop_step) simp
qed

lemma run_loop_config:
  "concurrency (fst (snd (run_loop W cap sched s))) = concurrency s"
proof -
  have a: "concurrency (arrive calls t) = concurrency t" for calls t
  proof (induction calls arbitrary: t)
    case Nil
    show ?case by simp
  next
    case (Cons c calls)
    have "concurrency (apply_call c t) = concurrency t"
      by (cases c) (simp_all add: AddStartURL_def Stop_def ClearVisited_def)
    with Cons show ?case by (simp add: arrive_Cons)
  qed
  show ?thesis
  proof (induction sched s rule: run_loop_induct)
    case (Empty sched s)
    then show ?case by (subst run_loop_step) (simp add: a)
  next
    case (Skip sched s u q)
    then show ?case by (subst run_loop_step) (simp add: a)
  next
    case (Mark sched s u q)
    then show ?case by (subst run_loop_step) (simp add: a Let_def)
  qed
qed

text \<open>The run does not depend on what the fetches return, except in its fetch events.\<close>

lemma run_loop_any_web:
  "fst (run_loop W cap sched s) = fst (run_loop W' cap sched s)
   \<and> fst (snd (run_loop W cap sched s)) = fst (snd (run_loop W' cap sched s))
   \<and> dispatched (snd (snd (run_loop W cap sched s))) = dispatched (snd (snd (run_loop W' cap sched s)))"
proof (induction sched s rule: run_loop_induct)
  case (Empty sched s)
  then show ?case by (subst (1 2 3 4 5 6) run_loop_step) simp
next
  case (Skip sched s u q)
  then show ?case by (subst (1 2 3 4 5 6) run_loop_step) simp
next
  case (Mark sched s u q)
  then show ?case
    by (subst (1 2 3 4 5 6) run_loop_step) (simp add: Let_def dispatched_append dispatched_worker)
qed

lemma Run_events_cases:
  "Run_events W sched s =
     (if running s \<or> concurrency s <s 0 then []
      else snd (snd (run_loop W (concurrency s) sched (s\<lparr>running := True\<rparr>))))"
  by (simp add: Run_events_def Run_def Let_def split_beta split: bool.splits)

text \<open>In one session no URL is fetched twice, and no URL that was visited before.\<close>

lemma Run_fetched_fresh:
  assumes "no_clear sched"
  shows "distinct (fetched (Run_events W sched s))
       \<and> (\<forall>u. isVisited s u \<longrightarrow> u \<notin> set (fetched (Run_events W sched s)))"
proof (cases "running s \<or> concurrency s <s 0 \<or> concurrency s = 0")
  case True
  then show ?thesis by (auto simp: Run_events_cases run_loop_cap0)
next
  case False
  then have ev: "Run_events W sched s
      = snd (snd (run_loop W (concurrency s) sched (s\<lparr>running := True\<rparr>)))"
    by (simp add: Run_events_cases)
  from False have "concurrency s \<noteq> 0" by simp
  from run_loop_visited [OF this assms, of W "s\<lparr>running := True\<rparr>"]
  have "distinct (dispatched (Run_events W sched s))"
    and "\<forall>u \<in> set (dispatched (Run_events W sched s)). \<not> isVisited s u"
    by (simp_all add: ev isVisited_def)
  then show ?thesis
    unfolding ev by (subst (1 2) run_loop_fetched) auto
qed

lemma arrive_running:
  "(arrive calls (s\<lparr>running := b\<rparr>))\<lparr>running := True\<rparr> = (arrive calls s)\<lparr>running := True\<rparr>"
proof (induction calls arbitrary: s b)
  case Nil
  show ?case by simp
next
  case (Cons c calls)
  show ?case
  proof (cases c)
    case (CallAddStartURL u)
    have "AddStartURL u (s\<lparr>running := b\<rparr>) = (AddStartURL u s)\<lparr>running := b\<rparr>"
      by (simp add: AddStartURL_def)
    with Cons.IH [where s = "AddStartURL u s" and b = b] CallAddStartURL show ?thesis by (simp add: arrive_Cons)
  next
    case CallStop
    then show ?thesis by (simp add: arrive_Cons Stop_def)
  next
    case CallClearVisited
    have "ClearVisited (s\<lparr>running := b\<rparr>) = (ClearVisited s)\<lparr>running := b\<rparr>"
      by (simp add: ClearVisited_def)
    with Cons.IH [where s = "ClearVisited s" and b = b] CallClearVisited show ?thesis by (simp add: arrive_Cons)
  qed
qed

lemma arrive_without_Stop:
  "(arrive (filter (\<lambda>c. c \<noteq> CallStop) calls) (s\<lparr>running := b\<rparr>))\<lparr>running := True\<rparr>
     = (arrive calls s)\<lparr>running := True\<rparr>"
proof (induction calls arbitrary: s b)
  case Nil
  show ?case by simp
next
  case (Cons c calls)
  show ?case
  proof (cases c)
    case (CallAddStartURL u)
    have "AddStartURL u (s\<lparr>running := b\<rparr>) = (AddStartURL u s)\<lparr>running := b\<rparr>"
      by (simp add: AddStartURL_def)
    with Cons.IH [where s = "AddStartURL u s" and b = b] CallAddStartURL show ?thesis by (simp add: arrive_Cons)
  next
    case CallStop
    with Cons.IH [where s = s and b = b] arrive_running [where calls = calls and s = s and b = False] show ?thesis
      by (simp add: arrive_Cons Stop_def)
  next
    case CallClearVisited
    have "ClearVisited (s\<lparr>running := b\<rparr>) = (ClearVisited s)\<lparr>running := b\<rparr>"
      by (simp add: ClearVisited_def)
    with Cons.IH [where s = "ClearVisited s" and b = b] CallClearVisited show ?thesis by (simp add: arrive_Cons)
  qed
qed

lemma worker_running: "worker W (s\<lparr>running := b\<rparr>) u = worker W s u"
proof -
  have "crawlURL W (s\<lparr>running := b\<rparr>) u = crawlURL W s u"
    by (simp add: crawlURL_def Let_def split: option.splits sum.splits)
  then show ?thesis by (simp add: worker_def)
qed

lemma same_but_running:
  "t\<lparr>running := True\<rparr> = s\<lparr>running := True\<rparr> \<Longrightarrow>
     queue t = queue s \<and> visited t = visited s \<and> (\<exists>b. t = s\<lparr>running := b\<rparr>)"
proof -
  assume a: "t\<lparr>running := True\<rparr> = s\<lparr>running := True\<rparr>"
  then have "queue (t\<lparr>running := True\<rparr>) = queue (s\<lparr>running := True\<rparr>)"
    and "visited (t\<lparr>running := True\<rparr>) = visited (s\<lparr>running := True\<rparr>)" by simp_all
  moreover have "t = s\<lparr>running := running t\<rparr>"
    using a by (cases s; cases t) simp
  ultimately show ?thesis by auto
qed

lemma run_loop_without_Stop:
  "fst (run_loop W cap (without_Stop sched) (s\<lparr>running := b\<rparr>)) = fst (run_loop W cap sched s)
   \<and> (fst (snd (run_loop W cap (without_Stop sched) (s\<lparr>running := b\<rparr>))))\<lparr>running := True\<rparr>
       = (fst (snd (run_loop W cap sched s)))\<lparr>running := True\<rparr>
   \<and> snd (snd (run_loop W cap (without_Stop sched) (s\<lparr>running := b\<rparr>)))
       = snd (snd (run_loop W cap sched s))"
proof (induction sched s arbitrary: b rule: run_loop_induct)
  case (Empty sched s)
  let ?t0 = "arrive (next_calls (without_Stop sched)) (s\<lparr>running := b\<rparr>)"
  let ?s0 = "arrive (next_calls sched) s"
  have n: "next_calls (without_Stop sched) = filter (\<lambda>c. c \<noteq> CallStop) (next_calls sched)"
    by (cases sched) (simp_all add: next_calls_def without_Stop_def)
  have e: "?t0\<lparr>running := True\<rparr> = ?s0\<lparr>running := True\<rparr>"
    unfolding n by (rule arrive_without_Stop)
  have l: "concat (later_calls (without_Stop sched))
      = filter (\<lambda>c. c \<noteq> CallStop) (concat (later_calls sched))"
    by (cases sched) (simp_all add: later_calls_def without_Stop_def filter_concat)
  from same_but_running [OF e] Empty obtain b' where t0: "?t0 = ?s0\<lparr>running := b'\<rparr>"
    and q: "queue ?t0 = []" by auto
  have "(arrive (concat (later_calls (without_Stop sched))) ?t0)\<lparr>running := True\<rparr>
      = (arrive (concat (later_calls sched)) ?s0)\<lparr>running := True\<rparr>"
    unfolding l by (subst t0) (rule arrive_without_Stop)
  with Empty q show ?case
    by (subst (1 2 3 4 5 6) run_loop_step) simp
next
  case (Skip sched s u q)
  let ?t0 = "arrive (next_calls (without_Stop sched)) (s\<lparr>running := b\<rparr>)"
  let ?s0 = "arrive (next_calls sched) s"
  have n: "next_calls (without_Stop sched) = filter (\<lambda>c. c \<noteq> CallStop) (next_calls sched)"
    and l: "later_calls (without_Stop sched) = without_Stop (later_calls sched)"
    by (cases sched; simp add: next_calls_def later_calls_def without_Stop_def)+
  have e: "?t0\<lparr>running := True\<rparr> = ?s0\<lparr>running := True\<rparr>"
    unfolding n by (rule arrive_without_Stop)
  from same_but_running [OF e] obtain b' where t0: "?t0 = ?s0\<lparr>running := b'\<rparr>"
    and q: "queue ?t0 = queue ?s0" and v: "visited ?t0 = visited ?s0" by blast
  have tq: "?t0\<lparr>queue := q\<rparr> = (?s0\<lparr>queue := q\<rparr>)\<lparr>running := b'\<rparr>"
    by (subst t0) simp
  have vis: "isVisited ?t0 u" using Skip.hyps(2) v by (simp add: isVisited_def)
  have L: "run_loop W cap (without_Stop sched) (s\<lparr>running := b\<rparr>)
       = run_loop W cap (without_Stop (later_calls sched)) ((?s0\<lparr>queue := q\<rparr>)\<lparr>running := b'\<rparr>)"
    using Skip.hyps(1) q vis by (subst run_loop_step) (simp add: l tq)
  have R: "run_loop W cap sched s = run_loop W cap (later_calls sched) (?s0\<lparr>queue := q\<rparr>)"
    using Skip.hyps by (subst run_loop_step) simp
  show ?case unfolding L R by (rule Skip.IH)
next
  case (Mark sched s u q)
  let ?t0 = "arrive (next_calls (without_Stop sched)) (s\<lparr>running := b\<rparr>)"
  let ?s0 = "arrive (next_calls sched) s"
  let ?s2 = "?s0\<lparr>queue := q, visited := fmupd u True (visited ?s0)\<rparr>"
  have n: "next_calls (without_Stop sched) = filter (\<lambda>c. c \<noteq> CallStop) (next_calls sched)"
    and l: "later_calls (without_Stop sched) = without_Stop (later_calls sched)"
    by (cases sched; simp add: next_calls_def later_calls_def without_Stop_def)+
  have e: "?t0\<lparr>running := True\<rparr> = ?s0\<lparr>running := True\<rparr>"
    unfolding n by (rule arrive_without_Stop)
  from same_but_running [OF e] obtain b' where t0: "?t0 = ?s0\<lparr>running := b'\<rparr>"
    and q: "queue ?t0 = queue ?s0" and v: "visited ?t0 = visited ?s0" by blast
  have t2: "?t0\<lparr>queue := q, visited := fmupd u True (visited ?t0)\<rparr> = ?s2\<lparr>running := b'\<rparr>"
    by (subst (1 2) t0) simp
  have vis: "\<not> isVisited ?t0 u" using Mark.hyps(2) v by (simp add: isVisited_def)
  show ?case
  proof (cases "cap = 0")
    case True
    have L: "run_loop W cap (without_Stop sched) (s\<lparr>running := b\<rparr>) = (False, ?s2\<lparr>running := b'\<rparr>, [])"
      using Mark.hyps(1) q vis True by (subst run_loop_step) (simp add: t2)
    have R: "run_loop W cap sched s = (False, ?s2, [])"
      using Mark.hyps True by (subst run_loop_step) simp
    show ?thesis unfolding L R by simp
  next
    case False
    let ?rt = "run_loop W cap (without_Stop (later_calls sched)) (?s2\<lparr>running := b'\<rparr>)"
    let ?rs = "run_loop W cap (later_calls sched) ?s2"
    have L: "run_loop W cap (without_Stop sched) (s\<lparr>running := b\<rparr>)
         = (fst ?rt, fst (snd ?rt), Dispatch u # worker W ?s2 u @ snd (snd ?rt))"
      using Mark.hyps(1) q vis False
      by (subst run_loop_step) (simp add: l t2 Let_def worker_running)
    have R: "run_loop W cap sched s
         = (fst ?rs, fst (snd ?rs), Dispatch u # worker W ?s2 u @ snd (snd ?rs))"
      using Mark.hyps False by (subst run_loop_step) (simp add: Let_def)
    from Mark.IH [of b'] show ?thesis unfolding L R by simp
  qed
qed

lemma Run_without_Stop:
  "Run_result W (without_Stop sched) s = Run_result W sched s
   \<and> Run_events W (without_Stop sched) s = Run_events W sched s
   \<and> queue (Run_state W (without_Stop sched) s) = queue (Run_state W sched s)
   \<and> visited (Run_state W (without_Stop sched) s) = visited (Run_state W sched s)"
proof -
  let ?s1 = "s\<lparr>running := True\<rparr>"
  let ?a = "run_loop W (concurrency s) (without_Stop sched) ?s1"
  let ?b = "run_loop W (concurrency s) sched ?s1"
  from run_loop_without_Stop [where W = W and cap = "concurrency s" and sched = sched and s = ?s1
      and b = True]
  have f: "fst ?a = fst ?b" and e: "snd (snd ?a) = snd (snd ?b)"
    and st: "(fst (snd ?a))\<lparr>running := True\<rparr> = (fst (snd ?b))\<lparr>running := True\<rparr>"
    by simp_all
  from same_but_running [OF st] have q: "queue (fst (snd ?a)) = queue (fst (snd ?b))"
    and v: "visited (fst (snd ?a)) = visited (fst (snd ?b))" by simp_all
  show ?thesis
    using f e q v
    by (simp add: Run_result_def Run_events_def Run_state_def Run_def Let_def split_beta
        split: bool.splits)
qed






text \<open>The state at a test of the condition is a state the loop goes through: the run goes
  on from it with the rest of the schedule.\<close>

lemma run_loop_from_first_test:
  "run_loop W cap sched s = run_loop W cap ([] # later_calls sched) (arrive (next_calls sched) s)"
proof -
  have n: "next_calls ([] # later_calls sched) = []"
    and l: "later_calls ([] # later_calls sched) = later_calls sched"
    by (simp_all add: next_calls_def later_calls_def)
  show ?thesis
    by (rule trans [OF run_loop_step], rule sym, rule trans [OF run_loop_step])
       (simp only: n l arrive_Nil)
qed

lemma loop_state_on_the_way:
  "loop_state cap n sched s = Some t \<Longrightarrow>
     \<exists>evs. snd (snd (run_loop W cap sched s))
             = evs @ snd (snd (run_loop W cap ([] # drop (Suc n) sched) t))"
proof (induction n arbitrary: sched s)
  case 0
  then have t: "t = arrive (next_calls sched) s" by simp
  have "later_calls sched = drop (Suc 0) sched"
    by (cases sched) (simp_all add: later_calls_def)
  with run_loop_from_first_test [of W cap sched s] t show ?case by simp
next
  case (Suc n)
  let ?s0 = "arrive (next_calls sched) s"
  have d: "drop (Suc n) (later_calls sched) = drop (Suc (Suc n)) sched"
    by (cases sched) (simp_all add: later_calls_def)
  from Suc.prems obtain u q where q: "queue ?s0 = u # q"
    by (cases "queue ?s0") (simp_all add: Let_def)
  show ?case
  proof (cases "isVisited ?s0 u")
    case True
    with Suc.prems q have "loop_state cap n (later_calls sched) (?s0\<lparr>queue := q\<rparr>) = Some t"
      by (simp add: Let_def)
    from Suc.IH [OF this] q True show ?thesis
      by (subst run_loop_step) (simp add: d)
  next
    case False
    let ?s2 = "?s0\<lparr>queue := q, visited := fmupd u True (visited ?s0)\<rparr>"
    from Suc.prems q False have c: "cap \<noteq> 0"
      and "loop_state cap n (later_calls sched) ?s2 = Some t"
      by (simp_all add: Let_def split: if_splits)
    from Suc.IH [OF this(2)] obtain evs where
      "snd (snd (run_loop W cap (later_calls sched) ?s2))
         = evs @ snd (snd (run_loop W cap ([] # drop (Suc (Suc n)) sched) t))"
      by (auto simp: d)
    with q False c have "snd (snd (run_loop W cap sched s))
        = (Dispatch u # worker W ?s2 u @ evs)
            @ snd (snd (run_loop W cap ([] # drop (Suc (Suc n)) sched) t))"
      by (subst run_loop_step) (simp add: Let_def)
    then show ?thesis by blast
  qed
qed

text \<open>What a capacity that is not positive does to a run.\<close>

lemma Run_negative_capacity:
  "\<not> running s \<Longrightarrow> concurrency s <s 0 \<Longrightarrow> Run_result W sched s = Panicked"
  by (simp add: Run_result_def Run_def)

subsection \<open>The validator\<close>

lemma matches_any_set: "matches_any h ls = (h \<in> set ls)"
  by (induction ls) auto

lemma isLocalhost_iff:
  "isLocalhost N h =
     (strings_ToLower N h \<in> {''localhost'', ''127.0.0.1'', ''::1'', ''0.0.0.0'', ''::''})"
  by (simp add: isLocalhost_def matches_any_set localhostNames_def)

lemma validateScheme_None: "validateScheme s = None \<longleftrightarrow> s = ''http'' \<or> s = ''https''"
  by (auto simp: validateScheme_def allowedSchemes_def)

lemma validateIP_None:
  "validateIP N ip = None \<longleftrightarrow>
     \<not> IsLoopback N ip \<and> \<not> IsPrivate N ip \<and> \<not> IsLinkLocalUnicast N ip \<and> \<not> IsMulticast N ip"
  by (simp add: validateIP_def)

lemma validate_ips_None: "validate_ips N ips = None \<longleftrightarrow> (\<forall>ip \<in> set ips. validateIP N ip = None)"
  by (induction ips) (auto split: option.splits)

lemma validate_ips_blocked:
  "\<exists>ip \<in> set ips. validateIP N ip \<noteq> None \<Longrightarrow>
     \<exists>ip e. ip \<in> set ips \<and> validate_ips N ips = Some (BlockedIP ip e)"
  by (induction ips) (auto split: option.splits)

subsection \<open>Splitting and recomposing a reference\<close>

lemma take1_drop1: "take 1 xs = [c] \<Longrightarrow> c # drop 1 xs = xs"
  by (cases xs) auto

lemma take2_drop2: "take 2 xs = [c, d] \<Longrightarrow> c # d # drop 2 xs = xs"
  by (cases xs; cases "tl xs") auto

lemma cut_scheme_join:
  "cut_scheme s = (sc, r) \<Longrightarrow> (case sc of Some x \<Rightarrow> x @ '':'' | None \<Rightarrow> []) @ r = s"
proof -
  assume a: "cut_scheme s = (sc, r)"
  let ?P = "\<lambda>c. c \<notin> set '':/?#''"
  show ?thesis
  proof (cases "takeWhile ?P s \<noteq> [] \<and> take 1 (dropWhile ?P s) = '':''")
    case True
    with a have sc: "sc = Some (takeWhile ?P s)" and r: "r = drop 1 (dropWhile ?P s)"
      by (simp_all add: cut_scheme_def Let_def)
    from True take1_drop1 [of "dropWhile ?P s" "CHR '':''"]
    have "CHR '':'' # r = dropWhile ?P s" by (simp only: r)
    then have "takeWhile ?P s @ '':'' @ r = takeWhile ?P s @ dropWhile ?P s" by simp
    then show ?thesis by (simp only: sc option.case takeWhile_dropWhile_id append_assoc)
  next
    case False
    with a have "sc = None" "r = s"
      by (auto simp add: cut_scheme_def Let_def)
    then show ?thesis by simp
  qed
qed

lemma cut_authority_join:
  "cut_authority s = (au, r) \<Longrightarrow> (case au of Some x \<Rightarrow> ''//'' @ x | None \<Rightarrow> []) @ r = s"
proof -
  assume a: "cut_authority s = (au, r)"
  let ?P = "\<lambda>c. c \<notin> set ''/?#''"
  show ?thesis
  proof (cases "take 2 s = ''//''")
    case True
    with a have au: "au = Some (takeWhile ?P (drop 2 s))" and r: "r = dropWhile ?P (drop 2 s)"
      by (simp_all add: cut_authority_def)
    from True take2_drop2 [of s "CHR ''/''" "CHR ''/''"] have "''//'' @ drop 2 s = s" by simp
    then show ?thesis
      by (simp only: au r option.case takeWhile_dropWhile_id append_assoc)
  next
    case False
    with a have "au = None" "r = s"
      by (simp_all add: cut_authority_def)
    then show ?thesis by simp
  qed
qed

lemma cut_path_join:
  "cut_path s = (p, r) \<Longrightarrow> p @ r = s \<and> (r = [] \<or> hd r = CHR ''?'' \<or> hd r = CHR ''#'')"
proof -
  assume a: "cut_path s = (p, r)"
  let ?P = "\<lambda>c. c \<notin> set ''?#''"
  from a have p: "p = takeWhile ?P s" and r: "r = dropWhile ?P s"
    by (simp_all only: cut_path_def prod.inject)
  have "r \<noteq> [] \<Longrightarrow> \<not> ?P (hd r)" unfolding r by (rule hd_dropWhile)
  then have "r = [] \<or> hd r = CHR ''?'' \<or> hd r = CHR ''#''" by auto
  then show ?thesis by (simp only: p r takeWhile_dropWhile_id simp_thms)
qed

lemma cut_query_join:
  "cut_query s = (q, r) \<Longrightarrow> s = [] \<or> hd s = CHR ''?'' \<or> hd s = CHR ''#'' \<Longrightarrow>
     (case q of Some x \<Rightarrow> ''?'' @ x | None \<Rightarrow> []) @ r = s \<and> (r = [] \<or> hd r = CHR ''#'')"
proof -
  assume a: "cut_query s = (q, r)" and h: "s = [] \<or> hd s = CHR ''?'' \<or> hd s = CHR ''#''"
  let ?P = "\<lambda>c. c \<noteq> CHR ''#''"
  show ?thesis
  proof (cases "take 1 s = ''?''")
    case True
    with a have q: "q = Some (takeWhile ?P (drop 1 s))" and r: "r = dropWhile ?P (drop 1 s)"
      by (simp_all add: cut_query_def)
    from True take1_drop1 [of s "CHR ''?''"] have j: "''?'' @ drop 1 s = s" by simp
    have "r \<noteq> [] \<Longrightarrow> \<not> ?P (hd r)" unfolding r by (rule hd_dropWhile)
    then have e: "r = [] \<or> hd r = CHR ''#''" by auto
    have "(''?'' @ takeWhile ?P (drop 1 s)) @ dropWhile ?P (drop 1 s) = s"
      using j by (simp only: append_assoc takeWhile_dropWhile_id)
    with e show ?thesis by (simp only: q r option.case simp_thms)
  next
    case False
    with a have qr: "q = None" "r = s"
      by (simp_all add: cut_query_def)
    from False h have "s = [] \<or> hd s = CHR ''#''" by (cases s) auto
    with qr show ?thesis by simp
  qed
qed

lemma cut_fragment_join:
  "r = [] \<or> hd r = CHR ''#'' \<Longrightarrow> (case cut_fragment r of Some x \<Rightarrow> ''#'' @ x | None \<Rightarrow> []) = r"
  by (cases r) (auto simp: cut_fragment_def)

lemma recompose_split: "recompose (split_uri s) = s"
proof -
  obtain sc r1 where c1: "cut_scheme s = (sc, r1)" by (cases "cut_scheme s")
  obtain au r2 where c2: "cut_authority r1 = (au, r2)" by (cases "cut_authority r1")
  obtain p r3 where c3: "cut_path r2 = (p, r3)" by (cases "cut_path r2")
  obtain q r4 where c4: "cut_query r3 = (q, r4)" by (cases "cut_query r3")
  note j1 = cut_scheme_join [OF c1]
  note j2 = cut_authority_join [OF c2]
  note j3 = cut_path_join [OF c3]
  note j4 = cut_query_join [OF c4 conjunct2 [OF j3]]
  note j5 = cut_fragment_join [OF conjunct2 [OF j4]]
  have "recompose (split_uri s) =
      (case sc of Some x \<Rightarrow> x @ '':'' | None \<Rightarrow> [])
      @ (case au of Some x \<Rightarrow> ''//'' @ x | None \<Rightarrow> [])
      @ p
      @ (case q of Some x \<Rightarrow> ''?'' @ x | None \<Rightarrow> [])
      @ (case cut_fragment r4 of Some x \<Rightarrow> ''#'' @ x | None \<Rightarrow> [])"
    by (simp add: recompose_def split_uri_def c1 c2 c3 c4)
  also have "\<dots> = (case sc of Some x \<Rightarrow> x @ '':'' | None \<Rightarrow> [])
      @ (case au of Some x \<Rightarrow> ''//'' @ x | None \<Rightarrow> [])
      @ p @ r3"
    using j4 j5 by (simp only: append_assoc)
  also have "\<dots> = (case sc of Some x \<Rightarrow> x @ '':'' | None \<Rightarrow> []) @ r1"
    using j2 j3 by (simp only: append_assoc [symmetric])
  also have "\<dots> = s" by (rule j1)
  finally show ?thesis .
qed

section \<open>Constructor defaults\<close>

text \<open>
  C8. For every configuration, \<^verbatim>\<open>NewSpider\<close> replaces exactly the zero-valued fields:
  a zero depth becomes 3, a zero concurrency becomes 5, an empty user agent becomes the fixed
  string \<^verbatim>\<open>Mozilla/5.0 (compatible; GolwarcBot/1.0)\<close>, a zero timeout becomes 30 seconds
  (30000000000 nanoseconds); the delay is copied as it is, and every non-zero value is kept.
\<close>

theorem NewSpider_defaults:
  "maxDepth (NewSpider c) = (if MaxDepth c = 0 then 3 else MaxDepth c)
   \<and> concurrency (NewSpider c) = (if Concurrency c = 0 then 5 else Concurrency c)
   \<and> userAgent (NewSpider c) =
       (if UserAgent c = [] then ''Mozilla/5.0 (compatible; GolwarcBot/1.0)'' else UserAgent c)
   \<and> client_Timeout (httpClient (NewSpider c)) =
       (if Timeout c = 0 then 30000000000 else Timeout c)
   \<and> sint (30000000000 :: duration) = 30 * 1000000000
   \<and> delay (NewSpider c) = Delay c"
  by (simp add: NewSpider_def Let_def time_Second_def)

section \<open>Evaluating the examples\<close>

lemmas example_defs =
  example_urllib_def example_netlib_def example_Parse_def example_LookupIP_def ascii_lower_def

lemmas run_eval =
  Run_events_def Run_state_def Run_result_def Run_def example_spider_def NewSpider_def
  AddStartURL_def Stop_def ClearVisited_def GetVisitedCount_def word_sless_alt run_loop_step
  next_calls_def later_calls_def arrive_def isVisited_def worker_def crawlURL_def
  example_web_def http_StatusOK_def time_Second_def Let_def no_clear_def

lemma example_spider_ready:
  "\<not> running (example_spider urls) \<and> 0 <s concurrency (example_spider urls)
   \<and> queue (example_spider urls) = urls \<and> visited (example_spider urls) = fmempty"
proof -
  have "running (fold AddStartURL ys t) = running t
      \<and> concurrency (fold AddStartURL ys t) = concurrency t
      \<and> queue (fold AddStartURL ys t) = queue t @ ys
      \<and> visited (fold AddStartURL ys t) = visited t" for ys t
    by (induction ys arbitrary: t) (simp_all add: AddStartURL_def)
  then show ?thesis by (simp add: example_spider_def NewSpider_def word_sless_alt)
qed

section \<open>The validator: the checks made before any DNS query\<close>

text \<open>
  C2. \<^verbatim>\<open>ValidateURL\<close> rejects, in this order and each with its own error: the empty
  string; a string that \<^verbatim>\<open>url.Parse\<close> rejects; a URL whose lower-cased scheme is neither
  \<^verbatim>\<open>http\<close> nor \<^verbatim>\<open>https\<close> (so also \<^verbatim>\<open>file\<close>, \<^verbatim>\<open>javascript\<close>, \<^verbatim>\<open>ftp\<close>,
  \<^verbatim>\<open>data\<close>); a URL with an empty host name; a URL whose lower-cased host name is one of
  \<^verbatim>\<open>localhost\<close>, \<^verbatim>\<open>127.0.0.1\<close>, \<^verbatim>\<open>::1\<close>, \<^verbatim>\<open>0.0.0.0\<close>, \<^verbatim>\<open>::\<close>. In each of
  these cases no DNS query has been issued (the list of looked-up names is empty).
\<close>

theorem ValidateURL_syntactic:
  "ValidateURL U N [] = (Some URLEmpty, [])
   \<and> (rawURL \<noteq> [] \<and> url_Parse U rawURL = Inl err \<longrightarrow>
        ValidateURL U N rawURL = (Some (InvalidURLFormat err), []))
   \<and> (rawURL \<noteq> [] \<and> url_Parse U rawURL = Inr u
        \<and> strings_ToLower N (url_Scheme U u) \<noteq> ''http''
        \<and> strings_ToLower N (url_Scheme U u) \<noteq> ''https'' \<longrightarrow>
        ValidateURL U N rawURL = (Some (DisallowedScheme (strings_ToLower N (url_Scheme U u))), []))
   \<and> (rawURL \<noteq> [] \<and> url_Parse U rawURL = Inr u
        \<and> strings_ToLower N (url_Scheme U u) \<in> {''file'', ''javascript'', ''ftp'', ''data''} \<longrightarrow>
        ValidateURL U N rawURL = (Some (DisallowedScheme (strings_ToLower N (url_Scheme U u))), []))
   \<and> (rawURL \<noteq> [] \<and> url_Parse U rawURL = Inr u
        \<and> strings_ToLower N (url_Scheme U u) \<in> {''http'', ''https''}
        \<and> url_Hostname U u = [] \<longrightarrow>
        ValidateURL U N rawURL = (Some HostnameEmpty, []))
   \<and> (rawURL \<noteq> [] \<and> url_Parse U rawURL = Inr u
        \<and> strings_ToLower N (url_Scheme U u) \<in> {''http'', ''https''}
        \<and> url_Hostname U u \<noteq> []
        \<and> strings_ToLower N (url_Hostname U u)
             \<in> {''localhost'', ''127.0.0.1'', ''::1'', ''0.0.0.0'', ''::''} \<longrightarrow>
        ValidateURL U N rawURL = (Some LocalhostNotAllowed, []))"
  by (auto simp: ValidateURL_def validateHostname_def isLocalhost_iff validateScheme_def
      allowedSchemes_def Let_def)

text \<open>
  Witness for C2, in the example environment: an unparsable string, \<^verbatim>\<open>file:///etc/passwd\<close>,
  a URL without host and \<^verbatim>\<open>http://LocalHost:8080\<close> are rejected with the four reasons.
\<close>

theorem ValidateURL_syntactic_witness:
  "ValidateURL example_urllib example_netlib ''zzz'' = (Some (InvalidURLFormat ''parse error''), [])
   \<and> ValidateURL example_urllib example_netlib ''file:///etc/passwd''
       = (Some (DisallowedScheme ''file''), [])
   \<and> ValidateURL example_urllib example_netlib ''http:///path'' = (Some HostnameEmpty, [])
   \<and> ValidateURL example_urllib example_netlib ''http://LocalHost:8080''
       = (Some LocalhostNotAllowed, [])"
  using ValidateURL_syntactic [where U = example_urllib and N = example_netlib
        and rawURL = "''zzz''" and err = "''parse error''"]
    ValidateURL_syntactic [where U = example_urllib and N = example_netlib
        and rawURL = "''file:///etc/passwd''" and u = "(''file'', [])"]
    ValidateURL_syntactic [where U = example_urllib and N = example_netlib
        and rawURL = "''http:///path''" and u = "(''http'', [])"]
    ValidateURL_syntactic [where U = example_urllib and N = example_netlib
        and rawURL = "''http://LocalHost:8080''" and u = "(''http'', ''LocalHost:8080'')"]
  by (simp add: example_defs)

section \<open>The validator: DNS resolution and the resolved addresses\<close>

text \<open>
  C3. For a URL that passes the syntactic checks (non-empty, parsed, scheme \<^verbatim>\<open>http\<close> or
  \<^verbatim>\<open>https\<close>, host name non-empty and not a localhost alias), \<^verbatim>\<open>ValidateURL\<close> queries the
  DNS once, for the host name; it rejects the URL when the lookup fails; it rejects it,
  naming one of the resolved addresses, when some resolved address is loopback, private,
  link-local or multicast; and it returns \<^verbatim>\<open>nil\<close> exactly when the lookup succeeds and no
  resolved address is in one of these classes.
\<close>

theorem ValidateURL_resolution:
  assumes "rawURL \<noteq> []" and "url_Parse U rawURL = Inr u"
    and "strings_ToLower N (url_Scheme U u) \<in> {''http'', ''https''}"
    and "url_Hostname U u \<noteq> []"
    and "strings_ToLower N (url_Hostname U u)
           \<notin> {''localhost'', ''127.0.0.1'', ''::1'', ''0.0.0.0'', ''::''}"
  shows "snd (ValidateURL U N rawURL) = [url_Hostname U u]
       \<and> (net_LookupIP N (url_Hostname U u) = Inl err \<longrightarrow>
            fst (ValidateURL U N rawURL) = Some (CannotResolve err))
       \<and> (net_LookupIP N (url_Hostname U u) = Inr ips
            \<and> (\<exists>ip \<in> set ips. IsLoopback N ip \<or> IsPrivate N ip
                                 \<or> IsLinkLocalUnicast N ip \<or> IsMulticast N ip) \<longrightarrow>
            (\<exists>ip e. ip \<in> set ips \<and> fst (ValidateURL U N rawURL) = Some (BlockedIP ip e)))
       \<and> (fst (ValidateURL U N rawURL) = None \<longleftrightarrow>
            (\<exists>ips. net_LookupIP N (url_Hostname U u) = Inr ips
                   \<and> (\<forall>ip \<in> set ips. \<not> IsLoopback N ip \<and> \<not> IsPrivate N ip
                                      \<and> \<not> IsLinkLocalUnicast N ip \<and> \<not> IsMulticast N ip)))"
proof -
  have sch: "validateScheme (strings_ToLower N (url_Scheme U u)) = None"
    using assms(3) by (auto simp: validateScheme_None)
  have loc: "\<not> isLocalhost N (url_Hostname U u)"
    using assms(5) by (simp add: isLocalhost_iff)
  have V: "ValidateURL U N rawURL =
             (case net_LookupIP N (url_Hostname U u) of
                Inl err \<Rightarrow> (Some (CannotResolve err), [url_Hostname U u])
              | Inr ips \<Rightarrow> (validate_ips N ips, [url_Hostname U u]))"
    using assms(1,2,4) sch loc by (simp add: ValidateURL_def validateHostname_def)
  have p0: "snd (ValidateURL U N rawURL) = [url_Hostname U u]"
    by (simp add: V split: sum.splits)
  have p1: "net_LookupIP N (url_Hostname U u) = Inl err \<longrightarrow>
            fst (ValidateURL U N rawURL) = Some (CannotResolve err)"
    by (simp add: V)
  have p2: "net_LookupIP N (url_Hostname U u) = Inr ips
            \<and> (\<exists>ip \<in> set ips. IsLoopback N ip \<or> IsPrivate N ip
                                 \<or> IsLinkLocalUnicast N ip \<or> IsMulticast N ip) \<longrightarrow>
            (\<exists>ip e. ip \<in> set ips \<and> fst (ValidateURL U N rawURL) = Some (BlockedIP ip e))"
  proof
    assume a: "net_LookupIP N (url_Hostname U u) = Inr ips
            \<and> (\<exists>ip \<in> set ips. IsLoopback N ip \<or> IsPrivate N ip
                                 \<or> IsLinkLocalUnicast N ip \<or> IsMulticast N ip)"
    then have "\<exists>ip \<in> set ips. validateIP N ip \<noteq> None"
      by (simp add: validateIP_None)
    from validate_ips_blocked [OF this] a show
      "\<exists>ip e. ip \<in> set ips \<and> fst (ValidateURL U N rawURL) = Some (BlockedIP ip e)"
      by (simp add: V)
  qed
  have p3: "fst (ValidateURL U N rawURL) = None \<longleftrightarrow>
            (\<exists>ips. net_LookupIP N (url_Hostname U u) = Inr ips
                   \<and> (\<forall>ip \<in> set ips. \<not> IsLoopback N ip \<and> \<not> IsPrivate N ip
                                      \<and> \<not> IsLinkLocalUnicast N ip \<and> \<not> IsMulticast N ip))"
    by (cases "net_LookupIP N (url_Hostname U u)")
       (simp_all add: V validate_ips_None validateIP_None)
  from p0 p1 p2 p3 show ?thesis by blast
qed

text \<open>
  Witness for C3, in the example environment: \<^verbatim>\<open>https://example.com/path\<close> resolves to a
  public address and is allowed; \<^verbatim>\<open>http://nowhere.test/\<close> does not resolve and is rejected;
  \<^verbatim>\<open>http://mixed.test/\<close> resolves to a public and a private address and is rejected.
\<close>

theorem ValidateURL_resolution_witness:
  "ValidateURL example_urllib example_netlib ''https://example.com/path'' = (None, [''example.com''])
   \<and> fst (ValidateURL example_urllib example_netlib ''http://nowhere.test/'')
       = Some (CannotResolve ''no such host'')
   \<and> (\<exists>ip e. ip \<in> set [[93, 184, 216, 34], [192, 168, 1, 1]]
        \<and> fst (ValidateURL example_urllib example_netlib ''http://mixed.test/'')
            = Some (BlockedIP ip e))"
proof -
  have a: "fst (ValidateURL example_urllib example_netlib ''https://example.com/path'') = None
      \<and> snd (ValidateURL example_urllib example_netlib ''https://example.com/path'') = [''example.com'']"
    using ValidateURL_resolution [where rawURL = "''https://example.com/path''"
        and U = example_urllib and u = "(''https'', ''example.com'')" and N = example_netlib]
    by (simp add: example_defs)
  have b: "fst (ValidateURL example_urllib example_netlib ''http://nowhere.test/'')
       = Some (CannotResolve ''no such host'')"
    using ValidateURL_resolution [where rawURL = "''http://nowhere.test/''"
        and U = example_urllib and u = "(''http'', ''nowhere.test'')" and N = example_netlib
        and err = "''no such host''"]
    by (simp add: example_defs)
  have c: "\<exists>ip e. ip \<in> set [[93, 184, 216, 34], [192, 168, 1, 1]]
        \<and> fst (ValidateURL example_urllib example_netlib ''http://mixed.test/'')
            = Some (BlockedIP ip e)"
    using ValidateURL_resolution [where rawURL = "''http://mixed.test/''"
        and U = example_urllib and u = "(''http'', ''mixed.test'')" and N = example_netlib
        and ips = "[[93, 184, 216, 34], [192, 168, 1, 1]]"]
    by (simp add: example_defs)
  from a b c show ?thesis by (simp add: prod_eq_iff)
qed

section \<open>The status check of a fetch\<close>

text \<open>
  C6 (as amended). For a URL whose request can be built and whose transport succeeds,
  \<^verbatim>\<open>crawlURL\<close> returns the error carrying the status code exactly when the status is not
  200 (\<^verbatim>\<open>http.StatusOK\<close>), also for the other codes of the 2xx range; for status 200 the body
  is parsed and the document handler, if any, is called, and its error is the result. In
  every case the request is sent once: there is no retry.
\<close>

theorem crawlURL_status:
  assumes "http_NewRequest W ''GET'' urlStr = None"
    and "http_Do W (httpClient s)
           \<lparr>req_Method = ''GET'', req_URL = urlStr, req_UserAgent = userAgent s\<rparr> = Inr resp"
  shows "((\<exists>code. fst (crawlURL W s urlStr) = Some (StatusError code)) \<longleftrightarrow> StatusCode resp \<noteq> 200)
       \<and> (StatusCode resp \<noteq> 200 \<longrightarrow>
            fst (crawlURL W s urlStr) = Some (StatusError (StatusCode resp)))
       \<and> (StatusCode resp = 200 \<longrightarrow>
            fst (crawlURL W s urlStr) =
              (case goquery_NewDocument W (Body resp) of
                 Inl err \<Rightarrow> Some (DocumentError err)
               | Inr doc \<Rightarrow>
                   (case onDocument s of
                      None \<Rightarrow> None
                    | Some handler \<Rightarrow> map_option HandlerError (handler doc urlStr))))
       \<and> fetched (snd (crawlURL W s urlStr)) = [urlStr]"
  using assms
  by (auto simp: crawlURL_def Let_def http_StatusOK_def split: sum.splits option.splits)

text \<open>
  Witness for C6: in the example environment the page that answers 404 gives the error with
  code 404 after one request, and the page that answers 200 gives no error.
\<close>

theorem crawlURL_status_witness:
  "fst (crawlURL example_web (example_spider []) ''https://example.com/missing'')
     = Some (StatusError 404)
   \<and> fetched (snd (crawlURL example_web (example_spider []) ''https://example.com/missing''))
       = [''https://example.com/missing'']
   \<and> fst (crawlURL example_web (example_spider []) ''https://example.com/'') = None"
proof -
  have n: "http_NewRequest example_web ''GET'' u = None" if "u \<noteq> ''::bad''" for u
    using that by (simp add: example_web_def)
  have d1: "http_Do example_web (httpClient (example_spider []))
           \<lparr>req_Method = ''GET'', req_URL = ''https://example.com/missing'',
            req_UserAgent = userAgent (example_spider [])\<rparr>
        = Inr \<lparr>StatusCode = 404, Body = ''Not Found''\<rparr>"
    by (simp add: example_web_def)
  have d2: "http_Do example_web (httpClient (example_spider []))
           \<lparr>req_Method = ''GET'', req_URL = ''https://example.com/'',
            req_UserAgent = userAgent (example_spider [])\<rparr>
        = Inr \<lparr>StatusCode = 200, Body = ''<html><body><h1>Test</h1></body></html>''\<rparr>"
    by (simp add: example_web_def)
  have h: "onDocument (example_spider []) = None"
    by (simp add: example_spider_def NewSpider_def)
  from crawlURL_status [OF n d1] crawlURL_status [OF n d2] h show ?thesis
    by (simp add: example_web_def)
qed

text \<open>
  Counterexample to C6 as stated: status 204 lies in the 2xx range, and \<^verbatim>\<open>crawlURL\<close>
  reports it as a failure.
\<close>

theorem crawlURL_status_counterexample:
  "fst (crawlURL example_web (example_spider []) ''https://example.com/empty'')
     = Some (StatusError 204)
   \<and> 200 \<le> sint (204 :: go_int) \<and> sint (204 :: go_int) < 300"
  by (simp add: crawlURL_def example_web_def http_StatusOK_def Let_def)

section \<open>No validation before a fetch\<close>

text \<open>
  C1 (as amended). \<^verbatim>\<open>Run\<close> and \<^verbatim>\<open>crawlURL\<close> never consult the URL validator: the only
  check between the pop of a URL and its fetch is the visited map. Every URL that is in the
  queue and not visited when \<^verbatim>\<open>Run\<close> starts (on a spider that is not running and has a
  positive concurrency) is fetched, provided \<^verbatim>\<open>http.NewRequest\<close> accepts it, whatever
  \<^verbatim>\<open>ValidateURL\<close> would say about it.
\<close>

theorem Run_fetches_unvalidated:
  assumes "\<not> running s" and "0 <s concurrency s"
    and "u \<in> set (queue s)" and "\<not> isVisited s u"
    and "http_NewRequest W ''GET'' u = None"
  shows "u \<in> set (fetched (Run_events W sched s))"
proof -
  from positive_capacity [OF assms(2)] have c: "concurrency s \<noteq> 0" by simp
  have "u \<in> set (dispatched (snd (snd (run_loop W (concurrency s) sched (s\<lparr>running := True\<rparr>)))))"
    using run_loop_dispatches_queued [OF c, of u "s\<lparr>running := True\<rparr>" W sched] assms(3,4)
    by (simp add: isVisited_def)
  then show ?thesis
    using assms(5)
    by (simp add: Run_events_def Run_positive [OF assms(1,2)] run_loop_fetched)
qed

text \<open>
  Witness for C1: a default spider whose queue holds \<^verbatim>\<open>http://127.0.0.1:8080/api\<close>
  fetches it.
\<close>

theorem Run_fetches_unvalidated_witness:
  "''http://127.0.0.1:8080/api''
     \<in> set (fetched (Run_events example_web [] (example_spider [''http://127.0.0.1:8080/api''])))"
proof -
  let ?s = "example_spider [''http://127.0.0.1:8080/api'']"
  have 1: "\<not> running ?s" and 2: "0 <s concurrency ?s"
    and 3: "''http://127.0.0.1:8080/api'' \<in> set (queue ?s)"
    and 4: "\<not> isVisited ?s ''http://127.0.0.1:8080/api''"
    by (simp_all add: example_spider_ready isVisited_def)
  have 5: "http_NewRequest example_web ''GET'' ''http://127.0.0.1:8080/api'' = None"
    by (simp add: example_web_def)
  from Run_fetches_unvalidated [OF 1 2 3 4 5] show ?thesis .
qed

text \<open>
  Counterexample to C1 as stated: the validator rejects \<^verbatim>\<open>http://127.0.0.1:8080/api\<close>
  as a localhost URL, and a run whose queue holds it sends the request.
\<close>

theorem Run_validation_counterexample:
  "fst (ValidateURL example_urllib example_netlib ''http://127.0.0.1:8080/api'')
     = Some LocalhostNotAllowed
   \<and> fetched (Run_events example_web [] (example_spider [''http://127.0.0.1:8080/api'']))
       = [''http://127.0.0.1:8080/api'']"
proof -
  have "fst (ValidateURL example_urllib example_netlib ''http://127.0.0.1:8080/api'')
     = Some LocalhostNotAllowed"
    by (simp add: ValidateURL_def validateHostname_def isLocalhost_iff validateScheme_def
        allowedSchemes_def example_defs)
  moreover have "fetched (Run_events example_web [] (example_spider [''http://127.0.0.1:8080/api'']))
       = [''http://127.0.0.1:8080/api'']"
    by (simp add: run_eval)
  ultimately show ?thesis by simp
qed

section \<open>At most one fetch per URL and session\<close>

text \<open>
  C4. Within one crawl session (one call of \<^verbatim>\<open>Run\<close> during which nobody calls
  \<^verbatim>\<open>ClearVisited\<close>) no URL is fetched twice: the first pop of a URL marks it in the
  visited map, a later pop of the same URL is skipped, and a URL that was marked visited
  before the run is not fetched at all. This holds for every web, every spider and every
  schedule of concurrent \<^verbatim>\<open>AddStartURL\<close> and \<^verbatim>\<open>Stop\<close> calls.
\<close>

theorem Run_fetches_once:
  assumes "no_clear sched"
  shows "distinct (fetched (Run_events W sched s))
       \<and> (\<forall>u. count_list (fetched (Run_events W sched s)) u \<le> 1)
       \<and> (\<forall>u. isVisited s u \<longrightarrow> u \<notin> set (fetched (Run_events W sched s)))"
proof -
  have "count_list xs u \<le> 1" if "distinct xs" for xs :: "string list" and u
    using that by (induction xs) auto
  with Run_fetched_fresh [OF assms, of W s] show ?thesis by blast
qed

text \<open>
  Witness for C4: the queue holds a URL twice, and another goroutine adds it once more
  before the loop tests its condition for the first time; it is fetched once.
\<close>

theorem Run_fetches_once_witness:
  "no_clear [[CallAddStartURL ''https://example.com/'']]
   \<and> fetched (Run_events example_web [[CallAddStartURL ''https://example.com/'']]
        (example_spider [''https://example.com/'', ''https://example.com/missing'',
                         ''https://example.com/'']))
       = [''https://example.com/'', ''https://example.com/missing'']
   \<and> distinct (fetched (Run_events example_web [[CallAddStartURL ''https://example.com/'']]
        (example_spider [''https://example.com/'', ''https://example.com/missing'',
                         ''https://example.com/''])))"
proof -
  have h: "no_clear [[CallAddStartURL ''https://example.com/'']]"
    by (simp add: no_clear_def)
  have e: "fetched (Run_events example_web [[CallAddStartURL ''https://example.com/'']]
        (example_spider [''https://example.com/'', ''https://example.com/missing'',
                         ''https://example.com/'']))
       = [''https://example.com/'', ''https://example.com/missing'']"
    by (simp add: run_eval)
  from Run_fetches_once [OF h] h e show ?thesis by blast
qed

section \<open>The result of Run\<close>




section \<open>Stop during a run\<close>

text \<open>
  C7. The claim is that after \<^verbatim>\<open>Stop()\<close> the driving loop of \<^verbatim>\<open>Run\<close> pops no further
  URL. The loop tests only \<^verbatim>\<open>len(s.queue) > 0\<close> and never reads the flag that
  \<^verbatim>\<open>Stop\<close> clears: for every web, schedule and spider, a run does the same (result,
  events, final queue and visited map) as with the calls of \<^verbatim>\<open>Stop\<close> taken out of the
  schedule. In the example the queue holds two URLs and \<^verbatim>\<open>Stop\<close> is called during the
  first pass of the loop (it takes effect before the second test of the condition): the
  second URL is popped and fetched all the same, and \<^verbatim>\<open>Run\<close> returns only with the
  queue empty.
\<close>

theorem Run_ignores_Stop:
  "Run_result W (without_Stop sched) s = Run_result W sched s
   \<and> Run_events W (without_Stop sched) s = Run_events W sched s
   \<and> queue (Run_state W (without_Stop sched) s) = queue (Run_state W sched s)
   \<and> visited (Run_state W (without_Stop sched) s) = visited (Run_state W sched s)
   \<and> fetched (Run_events example_web [[], [CallStop]]
        (example_spider [''https://example.com/'', ''https://example.com/missing'']))
       = [''https://example.com/'', ''https://example.com/missing'']
   \<and> Run_result example_web [[], [CallStop]]
        (example_spider [''https://example.com/'', ''https://example.com/missing'']) = Returned None
   \<and> queue (Run_state example_web [[], [CallStop]]
        (example_spider [''https://example.com/'', ''https://example.com/missing''])) = []"
proof -
  have "fetched (Run_events example_web [[], [CallStop]]
        (example_spider [''https://example.com/'', ''https://example.com/missing'']))
       = [''https://example.com/'', ''https://example.com/missing'']
   \<and> Run_result example_web [[], [CallStop]]
        (example_spider [''https://example.com/'', ''https://example.com/missing'']) = Returned None
   \<and> queue (Run_state example_web [[], [CallStop]]
        (example_spider [''https://example.com/'', ''https://example.com/missing''])) = []"
    by (simp add: run_eval)
  with Run_without_Stop [of W sched s] show ?thesis by blast
qed

section \<open>The visited count\<close>

text \<open>
  C10. In a session (spider not running, positive concurrency, no call of
  \<^verbatim>\<open>ClearVisited\<close>) every URL handed to a worker is marked in the visited map; the mark does
  not depend on what the fetch returns. So \<^verbatim>\<open>GetVisitedCount\<close> after the run counts the keys
  held before together with all URLs attempted, it is the same for every web (one in which
  all fetches fail and one in which all succeed), and a URL attempted in this run is not
  fetched by a later run of the same session.
\<close>

theorem Run_marks_attempted:
  assumes "\<not> running s" and "0 <s concurrency s" and "no_clear sched"
  shows "(\<forall>u \<in> set (dispatched (Run_events W sched s)). isVisited (Run_state W sched s) u)
       \<and> GetVisitedCount (Run_state W sched s)
           = fcard (fmdom (visited s) |\<union>| fset_of_list (dispatched (Run_events W sched s)))
       \<and> dispatched (Run_events W' sched s) = dispatched (Run_events W sched s)
       \<and> GetVisitedCount (Run_state W' sched s) = GetVisitedCount (Run_state W sched s)
       \<and> (\<forall>u \<in> set (dispatched (Run_events W sched s)).
             no_clear sched' \<longrightarrow> u \<notin> set (fetched (Run_events W'' sched' (Run_state W sched s))))"
proof -
  let ?s1 = "s\<lparr>running := True\<rparr>"
  let ?r = "run_loop W (concurrency s) sched ?s1"
  from positive_capacity [OF assms(2)] have c: "concurrency s \<noteq> 0" by simp
  have st: "Run_state W sched s = (fst (snd ?r))\<lparr>running := False\<rparr>"
    and ev: "Run_events W sched s = snd (snd ?r)"
    by (simp_all add: Run_state_def Run_events_def Run_positive [OF assms(1,2)])
  have st': "Run_state W' sched s = (fst (snd ?r))\<lparr>running := False\<rparr>"
    and ev': "dispatched (Run_events W' sched s) = dispatched (snd (snd ?r))"
    using run_loop_any_web [of W' "concurrency s" sched ?s1 W]
    by (simp_all add: Run_state_def Run_events_def Run_positive [OF assms(1,2)])
  from run_loop_visited [OF c assms(3), of W ?s1]
  have vis: "\<forall>u. isVisited (fst (snd ?r)) u = (isVisited ?s1 u \<or> u \<in> set (dispatched (snd (snd ?r))))"
    and dom: "fmdom (visited (fst (snd ?r))) = fmdom (visited s) |\<union>| fset_of_list (dispatched (snd (snd ?r)))"
    by simp_all
  have p1: "\<forall>u \<in> set (dispatched (Run_events W sched s)). isVisited (Run_state W sched s) u"
    using vis by (simp add: st ev isVisited_def)
  have p2: "GetVisitedCount (Run_state W sched s)
           = fcard (fmdom (visited s) |\<union>| fset_of_list (dispatched (Run_events W sched s)))"
    using dom by (simp add: st ev GetVisitedCount_def)
  have p3: "dispatched (Run_events W' sched s) = dispatched (Run_events W sched s)"
    by (simp add: ev ev')
  have p4: "GetVisitedCount (Run_state W' sched s) = GetVisitedCount (Run_state W sched s)"
    by (simp add: st st')
  have p5: "u \<notin> set (fetched (Run_events W'' sched' (Run_state W sched s)))"
    if "u \<in> set (dispatched (Run_events W sched s))" "no_clear sched'" for u
    using Run_fetched_fresh [OF that(2), of W'' "Run_state W sched s"] p1 that(1) by blast
  from p1 p2 p3 p4 p5 show ?thesis by blast
qed

text \<open>
  Witness for C10: the three URLs of the default spider all fail (404, connection refused,
  no request); after the run the count is 3, and a second run on the refilled queue fetches
  nothing.
\<close>

theorem Run_marks_attempted_witness:
  "GetVisitedCount (Run_state example_web []
      (example_spider [''https://example.com/missing'', ''http://unreachable.test/'', ''::bad'']))
     = 3
   \<and> fetched (Run_events example_web []
       (AddStartURL ''https://example.com/missing''
         (Run_state example_web []
           (example_spider [''https://example.com/missing'', ''http://unreachable.test/'',
                            ''::bad''])))) = []"
proof -
  let ?s = "example_spider [''https://example.com/missing'', ''http://unreachable.test/'', ''::bad'']"
  have 1: "\<not> running ?s" and 2: "0 <s concurrency ?s" and v: "visited ?s = fmempty"
    by (simp_all add: example_spider_ready)
  have 3: "no_clear []" by (simp add: no_clear_def)
  have d: "dispatched (Run_events example_web [] ?s)
       = [''https://example.com/missing'', ''http://unreachable.test/'', ''::bad'']"
    by (simp add: run_eval)
  have f: "fetched (Run_events example_web []
       (AddStartURL ''https://example.com/missing'' (Run_state example_web [] ?s))) = []"
    by (simp add: run_eval)
  from Run_marks_attempted [OF 1 2 3, of example_web example_web "[]" example_web]
  have "GetVisitedCount (Run_state example_web [] ?s)
      = fcard (fmdom (visited ?s) |\<union>| fset_of_list (dispatched (Run_events example_web [] ?s)))"
    by blast
  then have "GetVisitedCount (Run_state example_web [] ?s) = 3"
    by (simp add: v d fcard_finsert_if)
  with f show ?thesis by simp
qed

section \<open>Resolving a link\<close>

lemma ResolveURL_relative_path:
  "ResolveURL rfc3986 ''https://example.com/base/'' ''page.html''
     = Inr ''https://example.com/base/page.html''"
  by code_simp

lemma ResolveURL_absolute_path:
  "ResolveURL rfc3986 ''https://example.com/base/'' ''/absolute/path''
     = Inr ''https://example.com/absolute/path''"
  by code_simp

lemma ResolveURL_full_URL:
  "ResolveURL rfc3986 ''https://example.com/'' ''https://other.com/page''
     = Inr ''https://other.com/page''"
  by code_simp

lemma ResolveURL_invalid_base:
  "ResolveURL rfc3986 ''://invalid'' ''/page'' = Inl ''malformed URI reference''"
  by code_simp

text \<open>
  C9 (as amended). For every URL library, \<^verbatim>\<open>ResolveURL\<close> returns the error of
  \<^verbatim>\<open>url.Parse\<close> when the base is malformed, and otherwise when the relative input is
  malformed; when both parse it returns the string of the reference that
  \<^verbatim>\<open>ResolveReference\<close> gives for them. With the library after RFC 3986, a relative input
  that has a scheme is resolved without regard to the base (two bases give the same
  result), and the four literal cases hold: \<^verbatim>\<open>page.html\<close> and \<^verbatim>\<open>/absolute/path\<close>
  against \<^verbatim>\<open>https://example.com/base/\<close>, \<^verbatim>\<open>https://other.com/page\<close> against
  \<^verbatim>\<open>https://example.com/\<close>, and the error for the base \<^verbatim>\<open>://invalid\<close>. That an
  absolute input is returned unchanged is not part of it.
\<close>

theorem ResolveURL_rfc3986:
  "(url_Parse U baseURL = Inl err \<longrightarrow> ResolveURL U baseURL relativeURL = Inl err)
   \<and> (url_Parse U baseURL = Inr b \<and> url_Parse U relativeURL = Inl err \<longrightarrow>
        ResolveURL U baseURL relativeURL = Inl err)
   \<and> (url_Parse U baseURL = Inr b \<and> url_Parse U relativeURL = Inr r \<longrightarrow>
        ResolveURL U baseURL relativeURL = Inr (url_String U (url_ResolveReference U b r)))
   \<and> (uri_Parse baseURL = Inr base \<and> uri_Parse otherURL = Inr other
        \<and> uri_Parse relativeURL = Inr relative \<and> uri_scheme relative \<noteq> None \<longrightarrow>
        ResolveURL rfc3986 baseURL relativeURL = ResolveURL rfc3986 otherURL relativeURL)
   \<and> ResolveURL rfc3986 ''https://example.com/base/'' ''page.html''
       = Inr ''https://example.com/base/page.html''
   \<and> ResolveURL rfc3986 ''https://example.com/base/'' ''/absolute/path''
       = Inr ''https://example.com/absolute/path''
   \<and> ResolveURL rfc3986 ''https://example.com/'' ''https://other.com/page''
       = Inr ''https://other.com/page''
   \<and> ResolveURL rfc3986 ''://invalid'' ''/page'' = Inl ''malformed URI reference''"
proof -
  have p1: "url_Parse U baseURL = Inl err \<longrightarrow> ResolveURL U baseURL relativeURL = Inl err"
    by (simp add: ResolveURL_def)
  have p2: "url_Parse U baseURL = Inr b \<and> url_Parse U relativeURL = Inl err \<longrightarrow>
        ResolveURL U baseURL relativeURL = Inl err"
    by (simp add: ResolveURL_def)
  have p3: "url_Parse U baseURL = Inr b \<and> url_Parse U relativeURL = Inr r \<longrightarrow>
        ResolveURL U baseURL relativeURL = Inr (url_String U (url_ResolveReference U b r))"
    by (simp add: ResolveURL_def)
  have p4: "uri_Parse baseURL = Inr base \<and> uri_Parse otherURL = Inr other
        \<and> uri_Parse relativeURL = Inr relative \<and> uri_scheme relative \<noteq> None \<longrightarrow>
        ResolveURL rfc3986 baseURL relativeURL = ResolveURL rfc3986 otherURL relativeURL"
    by (simp add: ResolveURL_def rfc3986_def resolve_def)
  from p1 p2 p3 p4 ResolveURL_relative_path ResolveURL_absolute_path ResolveURL_full_URL
    ResolveURL_invalid_base
  show ?thesis by blast
qed

text \<open>
  Witness for C9, with the library after RFC 3986: the base \<^verbatim>\<open>http://[::1\<close> is malformed;
  against the base \<^verbatim>\<open>https://example.com/\<close> the relative input \<^verbatim>\<open>page%zz.html\<close> is
  malformed; \<^verbatim>\<open>page.html\<close> is resolved to the string of the resolved reference; and
  \<^verbatim>\<open>https://other.com/a/../b\<close> gives the same against that base and against
  \<^verbatim>\<open>http://a/b/c/d;p?q\<close>.
\<close>

theorem ResolveURL_rfc3986_witness:
  "ResolveURL rfc3986 ''http://[::1'' ''/page'' = Inl ''malformed URI reference''
   \<and> ResolveURL rfc3986 ''https://example.com/'' ''page%zz.html'' = Inl ''malformed URI reference''
   \<and> ResolveURL rfc3986 ''https://example.com/'' ''page.html'' = Inr ''https://example.com/page.html''
   \<and> ResolveURL rfc3986 ''https://example.com/'' ''https://other.com/a/../b''
       = ResolveURL rfc3986 ''http://a/b/c/d;p?q'' ''https://other.com/a/../b''"
proof -
  let ?base = "\<lparr>uri_scheme = Some ''https'', uri_authority = Some ''example.com'',
      uri_path = ''/'', uri_query = None, uri_fragment = None\<rparr>"
  let ?other = "\<lparr>uri_scheme = Some ''http'', uri_authority = Some ''a'',
      uri_path = ''/b/c/d;p'', uri_query = Some ''q'', uri_fragment = None\<rparr>"
  let ?page = "\<lparr>uri_scheme = None, uri_authority = None,
      uri_path = ''page.html'', uri_query = None, uri_fragment = None\<rparr>"
  let ?abs = "\<lparr>uri_scheme = Some ''https'', uri_authority = Some ''other.com'',
      uri_path = ''/a/../b'', uri_query = None, uri_fragment = None\<rparr>"
  have b: "uri_Parse ''https://example.com/'' = Inr ?base" by code_simp
  have o: "uri_Parse ''http://a/b/c/d;p?q'' = Inr ?other" by code_simp
  have pg: "uri_Parse ''page.html'' = Inr ?page" by code_simp
  have ab: "uri_Parse ''https://other.com/a/../b'' = Inr ?abs" by code_simp
  have m1: "uri_Parse ''http://[::1'' = Inl ''malformed URI reference''" by code_simp
  have m2: "uri_Parse ''page%zz.html'' = Inl ''malformed URI reference''" by code_simp
  have str: "recompose (resolve ?base ?page) = ''https://example.com/page.html''" by code_simp
  have n: "uri_scheme ?abs \<noteq> None" by simp
  have ub: "url_Parse rfc3986 ''https://example.com/'' = Inr ?base"
    and upg: "url_Parse rfc3986 ''page.html'' = Inr ?page"
    and um1: "url_Parse rfc3986 ''http://[::1'' = Inl ''malformed URI reference''"
    and um2: "url_Parse rfc3986 ''page%zz.html'' = Inl ''malformed URI reference''"
    by (simp_all add: rfc3986_def b pg m1 m2)
  have w1: "ResolveURL rfc3986 ''http://[::1'' ''/page'' = Inl ''malformed URI reference''"
    using ResolveURL_rfc3986 [where U = rfc3986 and baseURL = "''http://[::1''"
        and relativeURL = "''/page''" and err = "''malformed URI reference''"
        and b = ?base and r = ?base and base = ?base and other = ?base and relative = ?base
        and otherURL = "[]"] um1
    by blast
  have w2: "ResolveURL rfc3986 ''https://example.com/'' ''page%zz.html''
      = Inl ''malformed URI reference''"
    using ResolveURL_rfc3986 [where U = rfc3986 and baseURL = "''https://example.com/''"
        and relativeURL = "''page%zz.html''" and err = "''malformed URI reference''"
        and b = ?base and r = ?base and base = ?base and other = ?base and relative = ?base
        and otherURL = "[]"] ub um2
    by blast
  have "ResolveURL rfc3986 ''https://example.com/'' ''page.html''
      = Inr (url_String rfc3986 (url_ResolveReference rfc3986 ?base ?page))"
    using ResolveURL_rfc3986 [where U = rfc3986 and baseURL = "''https://example.com/''"
        and relativeURL = "''page.html''" and err = "[]"
        and b = ?base and r = ?page and base = ?base and other = ?base and relative = ?base
        and otherURL = "[]"] ub upg
    by blast
  then have w3: "ResolveURL rfc3986 ''https://example.com/'' ''page.html''
      = Inr ''https://example.com/page.html''"
    by (simp add: rfc3986_def str)
  have w4: "ResolveURL rfc3986 ''https://example.com/'' ''https://other.com/a/../b''
       = ResolveURL rfc3986 ''http://a/b/c/d;p?q'' ''https://other.com/a/../b''"
    using ResolveURL_rfc3986 [where U = rfc3986 and baseURL = "''https://example.com/''"
        and relativeURL = "''https://other.com/a/../b''" and err = "[]"
        and b = ?base and r = ?abs and base = ?base and other = ?other and relative = ?abs
        and otherURL = "''http://a/b/c/d;p?q''"] b o ab n
    by blast
  from w1 w2 w3 w4 show ?thesis by blast
qed

text \<open>
  Counterexample to C9 as stated: an absolute relative input whose path holds a dot segment
  is not returned unchanged.
\<close>

theorem ResolveURL_absolute_counterexample:
  "ResolveURL rfc3986 ''https://example.com/'' ''https://other.com/a/../b''
     = Inr ''https://other.com/b''
   \<and> ''https://other.com/b'' \<noteq> ''https://other.com/a/../b''"
  by code_simp

end
